theory Spec2Isabelle
  imports Main "HOL-Library.AList" "HOL-Library.Sublist"
begin

section \<open>Tokens\<close>

text \<open>
  Modelled from the spec: the token kinds of \<^verbatim>\<open>lexer.TokenType\<close> and the two fields of
  \<^verbatim>\<open>lexer.Token\<close>. The lexer module is imported by \<^verbatim>\<open>parser.py\<close> but is not part of the
  sources; the kinds are the eleven that the specification enumerates, under the names
  the parser uses for them. The field \<^verbatim>\<open>type_\<close> of a token is \<open>token_type\<close> here and the
  field \<^verbatim>\<open>type_\<close> of a member is \<open>member_type\<close>, since a name cannot end in an underscore; the kind
  \<^verbatim>\<open>TokenType.TYPE\<close> is \<open>TYPE_KEYWORD\<close>, since \<open>TYPE\<close> is reserved syntax.
\<close>

datatype TokenType =
    IDENTIFIER | STRING_LITERAL | TYPE_KEYWORD | FUNCTION | IMPLEMENT | BY_MOVE
  | LEFT_PARENTHESIS | RIGHT_PARENTHESIS | EQUALS | PIPE | END_OF_INPUT

record Token =
  token_type :: TokenType
  lexeme :: string

section \<open>Errors\<close>

text \<open>
  Every \<^verbatim>\<open>raise ParserError(msg)\<close> of the source is one constructor of \<open>parser_error\<close>,
  named after the error kind of the specification:
  \<^item> \<open>UnexpectedEndOfInput\<close>: "unexpected end of input" (\<^verbatim>\<open>consume\<close>);
  \<^item> \<open>UnexpectedToken expected actual lexeme\<close>: "unexpected token type (expected ..., got ...)"
    (\<^verbatim>\<open>consume\<close>);
  \<^item> \<open>DuplicateOperationDeclaration\<close>: "duplicate declaration of pure virtual functions";
  \<^item> \<open>DuplicateImplementation\<close>: "duplicate implementation";
  \<^item> \<open>IncompleteOrExcessImplementation\<close>: "not all pure virtual functions are implemented";
  \<^item> \<open>TrailingContentAfterPostlude\<close>: "the postlude must be the last part of the file";
  \<^item> \<open>UnrecognizedFileLevelConstruct kind\<close>: "unexpected token ..." (the default case of
    the dispatch in \<^verbatim>\<open>parse\<close>).

  \<open>IndexError\<close> is Python's own exception for \<^verbatim>\<open>self.tokens[self.index]\<close> out of range;
  it is not a \<^verbatim>\<open>ParserError\<close>.
\<close>

datatype parser_error =
    UnexpectedEndOfInput
  | UnexpectedToken TokenType TokenType string
  | DuplicateOperationDeclaration
  | DuplicateImplementation
  | IncompleteOrExcessImplementation
  | TrailingContentAfterPostlude
  | UnrecognizedFileLevelConstruct TokenType

datatype error = ParserError parser_error | IndexError

section \<open>The data model\<close>

record Member =
  name :: string
  by_move :: bool
  member_type :: string

record PureVirtualFunction =
  name :: string
  return_type :: "string option"

record Implementation =
  name :: string
  body :: string

record PolymorphicType =
  pure_virtual_functions :: "PureVirtualFunction list"
  members :: "Member list"
  implementations :: "Implementation list"

text \<open>
  A Python \<^verbatim>\<open>dict\<close> (and \<^verbatim>\<open>OrderedDict\<close>) iterates in insertion order, and an assignment
  to a key that is already present replaces the value and keeps the key's position. That
  is an association list with \<^const>\<open>AList.update\<close> as the assignment \<^verbatim>\<open>d[k] = v\<close>.
\<close>

record AbstractType =
  sub_types :: "(string \<times> PolymorphicType) list"
  members :: "Member list"
  pure_virtual_functions :: "PureVirtualFunction list"

record GeneratorDescription =
  prelude :: string
  type_definitions :: "(string \<times> string) list"
  abstract_types :: "(string \<times> AbstractType) list"
  postlude :: string

text \<open>
  \<^verbatim>\<open>PolymorphicType.__init__\<close>: the three checks, in the order of the source.
  \<^verbatim>\<open>len(set(names)) != len(names)\<close> is written with \<^const>\<open>card\<close> of the set of the names.
\<close>

definition new_PolymorphicType ::
  "PureVirtualFunction list \<Rightarrow> Member list \<Rightarrow> Implementation list \<Rightarrow> error + PolymorphicType"
where
  "new_PolymorphicType fs ms impls =
    (if card (set (map PureVirtualFunction.name fs)) \<noteq> length (map PureVirtualFunction.name fs)
       then Inl (ParserError DuplicateOperationDeclaration)
     else if card (set (map Implementation.name impls)) \<noteq> length (map Implementation.name impls)
       then Inl (ParserError DuplicateImplementation)
     else if set (map PureVirtualFunction.name fs) \<noteq> set (map Implementation.name impls)
       then Inl (ParserError IncompleteOrExcessImplementation)
     else Inr \<lparr>PolymorphicType.pure_virtual_functions = fs,
               PolymorphicType.members = ms,
               implementations = impls\<rparr>)"

section \<open>String literals\<close>

text \<open>
  \<^verbatim>\<open>lexeme[1:-1]\<close> drops the first and the last character; on a string of fewer than two
  characters the slice is empty. \<^verbatim>\<open>str.strip()\<close> drops the leading and the trailing
  whitespace, where whitespace is what \<^verbatim>\<open>str.isspace\<close> accepts. A \<^typ>\<open>char\<close> is read as
  a code point below 256; the whitespace among those are 9 to 13, 28 to 32, 133 and 160.
\<close>

definition isspace :: "char \<Rightarrow> bool" where
  "isspace c \<longleftrightarrow> c \<in> set [CHR 0x09, CHR 0x0A, CHR 0x0B, CHR 0x0C, CHR 0x0D,
                          CHR 0x1C, CHR 0x1D, CHR 0x1E, CHR 0x1F, CHR 0x20,
                          CHR 0x85, CHR 0xA0]"

definition strip :: "string \<Rightarrow> string" where
  "strip s = rev (dropWhile isspace (rev (dropWhile isspace s)))"

definition slice1 :: "string \<Rightarrow> string" where
  "slice1 s = butlast (tl s)"

section \<open>The cursor (class Parser)\<close>

record Parser =
  tokens :: "Token list"
  index :: nat

definition current :: "Parser \<Rightarrow> error + Token" where
  "current p =
    (if index p < length (tokens p) then Inr (tokens p ! index p) else Inl IndexError)"

definition parser_next :: "Parser \<Rightarrow> Parser" where
  "parser_next p = p\<lparr>index := index p + 1\<rparr>"

text \<open>
  \<^verbatim>\<open>is_end_of_input\<close>: the \<^verbatim>\<open>or\<close> of Python does not evaluate \<^verbatim>\<open>self.current()\<close> when the
  index is out of range, so the method never raises.
\<close>

definition is_end_of_input :: "Parser \<Rightarrow> bool" where
  "is_end_of_input p \<longleftrightarrow>
     index p \<ge> length (tokens p) \<or> token_type (tokens p ! index p) = END_OF_INPUT"

definition peek :: "Parser \<Rightarrow> error + Token option" where
  "peek p =
    (if is_end_of_input p then Inr None
     else if index p + 1 < length (tokens p) then Inr (Some (tokens p ! (index p + 1)))
     else Inl IndexError)"

text \<open>
  \<^verbatim>\<open>consume\<close>: behind the end-of-input test the index is in range, so the reads of
  \<^verbatim>\<open>self.current()\<close> there cannot raise.
\<close>

definition consume :: "TokenType \<Rightarrow> Parser \<Rightarrow> error + (Token \<times> Parser)" where
  "consume ty p =
    (if is_end_of_input p then Inl (ParserError UnexpectedEndOfInput)
     else if token_type (tokens p ! index p) \<noteq> ty
       then Inl (ParserError (UnexpectedToken ty (token_type (tokens p ! index p))
                                (lexeme (tokens p ! index p))))
     else Inr (tokens p ! index p, parser_next p))"

section \<open>The productions\<close>

definition parse_data_member :: "Parser \<Rightarrow> error + (Member \<times> Parser)" where
  "parse_data_member p =
    (case consume IDENTIFIER p of
       Inl e \<Rightarrow> Inl e
     | Inr (member_name, p1) \<Rightarrow>
        (case current p1 of
           Inl e \<Rightarrow> Inl e
         | Inr t \<Rightarrow>
            (let moved = (token_type t = BY_MOVE);
                 p2 = (if moved then parser_next p1 else p1)
             in case consume STRING_LITERAL p2 of
                  Inl e \<Rightarrow> Inl e
                | Inr (s, p3) \<Rightarrow>
                    Inr (\<lparr>Member.name = lexeme member_name, by_move = moved,
                          member_type = strip (slice1 (lexeme s))\<rparr>, p3))))"

definition parse_implementation :: "Parser \<Rightarrow> error + (Implementation \<times> Parser)" where
  "parse_implementation p =
    (case consume IMPLEMENT p of
       Inl e \<Rightarrow> Inl e
     | Inr (_, p1) \<Rightarrow>
        (case consume IDENTIFIER p1 of
           Inl e \<Rightarrow> Inl e
         | Inr (function_name, p2) \<Rightarrow>
            (case consume STRING_LITERAL p2 of
               Inl e \<Rightarrow> Inl e
             | Inr (function_body, p3) \<Rightarrow>
                 Inr (\<lparr>Implementation.name = lexeme function_name,
                       body = strip (slice1 (lexeme function_body))\<rparr>, p3))))"

text \<open>
  The body of the loop over the operation declarations of a header (lines 138 to 142 of
  \<^verbatim>\<open>parse\<close>): an empty return type is stored as \<^verbatim>\<open>None\<close>.
\<close>

definition parse_pure_virtual_function ::
  "Parser \<Rightarrow> error + (PureVirtualFunction \<times> Parser)"
where
  "parse_pure_virtual_function p =
    (case consume FUNCTION p of
       Inl e \<Rightarrow> Inl e
     | Inr (_, p1) \<Rightarrow>
        (case consume IDENTIFIER p1 of
           Inl e \<Rightarrow> Inl e
         | Inr (function_identifier, p2) \<Rightarrow>
            (case consume STRING_LITERAL p2 of
               Inl e \<Rightarrow> Inl e
             | Inr (s, p3) \<Rightarrow>
                 (let return_type_string = strip (slice1 (lexeme s));
                      function_return_type =
                        (if length return_type_string > 0 then Some return_type_string
                         else None)
                  in Inr (\<lparr>PureVirtualFunction.name = lexeme function_identifier,
                            return_type = function_return_type\<rparr>, p3)))))"

text \<open>
  The branch \<^verbatim>\<open>case TokenType.TYPE\<close> of \<^verbatim>\<open>parse\<close> (lines 124 to 127): the keyword is
  skipped with \<^verbatim>\<open>parser.next()\<close>, the name and the body are consumed.
\<close>

definition parse_type_definition :: "Parser \<Rightarrow> error + ((string \<times> string) \<times> Parser)" where
  "parse_type_definition p =
    (let p1 = parser_next p
     in case consume IDENTIFIER p1 of
          Inl e \<Rightarrow> Inl e
        | Inr (identifier, p2) \<Rightarrow>
           (case consume STRING_LITERAL p2 of
              Inl e \<Rightarrow> Inl e
            | Inr (s, p3) \<Rightarrow> Inr ((lexeme identifier, strip (slice1 (lexeme s))), p3)))"

section \<open>Progress of the cursor\<close>

text \<open>
  \<open>advances p p'\<close>: the cursor \<open>p'\<close> reads the same token sequence as \<open>p\<close>, stands strictly
  behind it, and not further than one position past the last token.
\<close>


definition advances :: "Parser \<Rightarrow> Parser \<Rightarrow> bool" where
  "advances p p' \<longleftrightarrow>
     tokens p' = tokens p \<and> index p < index p' \<and> index p' \<le> length (tokens p)"

lemma advances_trans: "advances p p' \<Longrightarrow> advances p' p'' \<Longrightarrow> advances p p''"
  by (auto simp: advances_def)

lemma current_in_range: "current p = Inr t \<Longrightarrow> index p < length (tokens p)"
  by (auto simp: current_def split: if_splits)

lemma parser_next_advances: "index p < length (tokens p) \<Longrightarrow> advances p (parser_next p)"
  by (simp add: advances_def parser_next_def)

lemma consume_advances: "consume ty p = Inr (t, p') \<Longrightarrow> advances p p'"
  by (auto simp: consume_def is_end_of_input_def advances_def parser_next_def split: if_splits)

lemma parse_data_member_advances:
  assumes "parse_data_member p = Inr (m, p')"
  shows "advances p p'"
proof -
  from assms obtain t1 p1 t where c1: "consume IDENTIFIER p = Inr (t1, p1)"
    and cur: "current p1 = Inr t"
    by (auto simp: parse_data_member_def split: sum.splits)
  let ?p2 = "if token_type t = BY_MOVE then parser_next p1 else p1"
  from assms c1 cur obtain s where c2: "consume STRING_LITERAL ?p2 = Inr (s, p')"
    by (auto simp: parse_data_member_def Let_def split: sum.splits)
  have a1: "advances p p1" using c1 by (rule consume_advances)
  have a2: "advances ?p2 p'" using c2 by (rule consume_advances)
  have "tokens ?p2 = tokens p1 \<and> index p1 \<le> index ?p2"
    by (simp add: parser_next_def)
  with a1 a2 show ?thesis by (auto simp: advances_def)
qed

lemma parse_implementation_advances:
  assumes "parse_implementation p = Inr (i, p')"
  shows "advances p p'"
proof -
  from assms obtain t1 p1 t2 p2 t3 where
    "consume IMPLEMENT p = Inr (t1, p1)" "consume IDENTIFIER p1 = Inr (t2, p2)"
    "consume STRING_LITERAL p2 = Inr (t3, p')"
    by (auto simp: parse_implementation_def split: sum.splits)
  then show ?thesis
    by (blast intro: advances_trans dest: consume_advances)
qed

lemma parse_pure_virtual_function_advances:
  assumes "parse_pure_virtual_function p = Inr (f, p')"
  shows "advances p p'"
proof -
  from assms obtain t1 p1 t2 p2 t3 where
    "consume FUNCTION p = Inr (t1, p1)" "consume IDENTIFIER p1 = Inr (t2, p2)"
    "consume STRING_LITERAL p2 = Inr (t3, p')"
    by (auto simp: parse_pure_virtual_function_def Let_def split: sum.splits)
  then show ?thesis
    by (blast intro: advances_trans dest: consume_advances)
qed

lemma parse_type_definition_advances:
  assumes "index p < length (tokens p)" and "parse_type_definition p = Inr (d, p')"
  shows "advances p p'"
proof -
  from assms(2) obtain t2 p2 t3 where
    "consume IDENTIFIER (parser_next p) = Inr (t2, p2)"
    "consume STRING_LITERAL p2 = Inr (t3, p')"
    by (auto simp: parse_type_definition_def Let_def split: sum.splits)
  with parser_next_advances [OF assms(1)] show ?thesis
    by (blast intro: advances_trans dest: consume_advances)
qed

lemma advances_measure:
  "advances p p' \<Longrightarrow> length (tokens p') - index p' < length (tokens p) - index p"
  by (auto simp: advances_def)

function base_type_members_loop ::
  "Parser \<Rightarrow> Member list \<Rightarrow> error + (Member list \<times> Parser)"
where
  "base_type_members_loop p base_type_members =
    (case current p of
       Inl e \<Rightarrow> Inl e
     | Inr t \<Rightarrow>
        if token_type t = IDENTIFIER then
          (case parse_data_member p of
             Inl e \<Rightarrow> Inl e
           | Inr (m, p') \<Rightarrow> base_type_members_loop p' (base_type_members @ [m]))
        else Inr (base_type_members, p))"
  by pat_completeness auto
termination
  by (relation "measure (\<lambda>(p, ms). length (tokens p) - index p)")
     (auto dest!: parse_data_member_advances advances_measure)

declare base_type_members_loop.simps [simp del]

function functions_loop ::
  "Parser \<Rightarrow> PureVirtualFunction list \<Rightarrow> error + (PureVirtualFunction list \<times> Parser)"
where
  "functions_loop p funs =
    (case current p of
       Inl e \<Rightarrow> Inl e
     | Inr t \<Rightarrow>
        if token_type t = FUNCTION then
          (case parse_pure_virtual_function p of
             Inl e \<Rightarrow> Inl e
           | Inr (f, p') \<Rightarrow> functions_loop p' (funs @ [f]))
        else Inr (funs, p))"
  by pat_completeness auto
termination
  by (relation "measure (\<lambda>(p, fs). length (tokens p) - index p)")
     (auto dest!: parse_pure_virtual_function_advances advances_measure)

declare functions_loop.simps [simp del]

function subtype_loop ::
  "Parser \<Rightarrow> Member list \<Rightarrow> Implementation list \<Rightarrow>
     error + (Member list \<times> Implementation list \<times> Parser)"
where
  "subtype_loop p mems impls =
    (case current p of
       Inl e \<Rightarrow> Inl e
     | Inr t \<Rightarrow>
        if token_type t = IDENTIFIER then
          (case parse_data_member p of
             Inl e \<Rightarrow> Inl e
           | Inr (m, p') \<Rightarrow> subtype_loop p' (mems @ [m]) impls)
        else if token_type t = IMPLEMENT then
          (case parse_implementation p of
             Inl e \<Rightarrow> Inl e
           | Inr (i, p') \<Rightarrow> subtype_loop p' mems (impls @ [i]))
        else Inr (mems, impls, p))"
  by pat_completeness auto
termination
  by (relation "measure (\<lambda>(p, ms, is). length (tokens p) - index p)")
     (auto dest!: parse_data_member_advances parse_implementation_advances advances_measure)

declare subtype_loop.simps [simp del]


lemma base_type_members_loop_follows:
  "base_type_members_loop p acc = Inr (ms, p') \<Longrightarrow>
     tokens p' = tokens p \<and> index p \<le> index p' \<and> index p' < length (tokens p)"
proof (induction p acc rule: base_type_members_loop.induct)
  case (1 p acc)
  from "1.prems" obtain t where cur: "current p = Inr t"
    by (subst (asm) base_type_members_loop.simps) (simp split: sum.splits)
  show ?case
  proof (cases "token_type t = IDENTIFIER")
    case True
    with "1.prems" cur obtain m p1 where pm: "parse_data_member p = Inr (m, p1)"
      and rec: "base_type_members_loop p1 (acc @ [m]) = Inr (ms, p')"
      by (subst (asm) base_type_members_loop.simps) (auto split: sum.splits)
    from "1.IH" [OF cur True pm refl rec] parse_data_member_advances [OF pm]
    show ?thesis by (simp add: advances_def)
  next
    case False
    with "1.prems" cur current_in_range [OF cur] show ?thesis
      by (subst (asm) base_type_members_loop.simps) simp
  qed
qed

lemma functions_loop_follows:
  "functions_loop p acc = Inr (fs, p') \<Longrightarrow>
     tokens p' = tokens p \<and> index p \<le> index p' \<and> index p' < length (tokens p)"
proof (induction p acc rule: functions_loop.induct)
  case (1 p acc)
  from "1.prems" obtain t where cur: "current p = Inr t"
    by (subst (asm) functions_loop.simps) (simp split: sum.splits)
  show ?case
  proof (cases "token_type t = FUNCTION")
    case True
    with "1.prems" cur obtain f p1 where pf: "parse_pure_virtual_function p = Inr (f, p1)"
      and rec: "functions_loop p1 (acc @ [f]) = Inr (fs, p')"
      by (subst (asm) functions_loop.simps) (auto split: sum.splits)
    from "1.IH" [OF cur True pf refl rec] parse_pure_virtual_function_advances [OF pf]
    show ?thesis by (simp add: advances_def)
  next
    case False
    with "1.prems" cur current_in_range [OF cur] show ?thesis
      by (subst (asm) functions_loop.simps) simp
  qed
qed

lemma subtype_loop_follows:
  "subtype_loop p ms0 is0 = Inr (ms, ims, p') \<Longrightarrow>
     tokens p' = tokens p \<and> index p \<le> index p' \<and> index p' < length (tokens p)"
proof (induction p ms0 is0 rule: subtype_loop.induct)
  case (1 p ms0 is0)
  from "1.prems" obtain t where cur: "current p = Inr t"
    by (subst (asm) subtype_loop.simps) (simp split: sum.splits)
  consider (member) "token_type t = IDENTIFIER"
    | (impl) "token_type t \<noteq> IDENTIFIER" "token_type t = IMPLEMENT"
    | (stop) "token_type t \<noteq> IDENTIFIER" "token_type t \<noteq> IMPLEMENT"
    by blast
  then show ?case
  proof cases
    case member
    with "1.prems" cur obtain m p1 where pm: "parse_data_member p = Inr (m, p1)"
      and rec: "subtype_loop p1 (ms0 @ [m]) is0 = Inr (ms, ims, p')"
      by (subst (asm) subtype_loop.simps) (auto split: sum.splits)
    from "1.IH"(1) [OF cur member pm refl rec] parse_data_member_advances [OF pm]
    show ?thesis by (simp add: advances_def)
  next
    case impl
    with "1.prems" cur obtain i p1 where pi: "parse_implementation p = Inr (i, p1)"
      and rec: "subtype_loop p1 ms0 (is0 @ [i]) = Inr (ms, ims, p')"
      by (subst (asm) subtype_loop.simps) (auto split: sum.splits)
    from "1.IH"(2) [OF cur impl pi refl rec] parse_implementation_advances [OF pi]
    show ?thesis by (simp add: advances_def)
  next
    case stop
    with "1.prems" cur current_in_range [OF cur] show ?thesis
      by (subst (asm) subtype_loop.simps) simp
  qed
qed

definition parse_subtype ::
  "Parser \<Rightarrow> error + (string \<times> Member list \<times> Implementation list \<times> Parser)"
where
  "parse_subtype p =
    (case consume IDENTIFIER p of
       Inl e \<Rightarrow> Inl e
     | Inr (identifier, p1) \<Rightarrow>
        (case consume LEFT_PARENTHESIS p1 of
           Inl e \<Rightarrow> Inl e
         | Inr (_, p2) \<Rightarrow>
            (case subtype_loop p2 [] [] of
               Inl e \<Rightarrow> Inl e
             | Inr (mems, impls, p3) \<Rightarrow>
                (case consume RIGHT_PARENTHESIS p3 of
                   Inl e \<Rightarrow> Inl e
                 | Inr (_, p4) \<Rightarrow> Inr (lexeme identifier, mems, impls, p4)))))"

lemma parse_subtype_advances:
  assumes "parse_subtype p = Inr (n, ms, is, p')"
  shows "advances p p'"
proof -
  from assms obtain t1 p1 t2 p2 p3 t4 where
    "consume IDENTIFIER p = Inr (t1, p1)" "consume LEFT_PARENTHESIS p1 = Inr (t2, p2)"
    "subtype_loop p2 [] [] = Inr (ms, is, p3)" "consume RIGHT_PARENTHESIS p3 = Inr (t4, p')"
    by (auto simp: parse_subtype_def split: sum.splits)
  then show ?thesis
    by (auto dest!: consume_advances subtype_loop_follows simp: advances_def)
qed

function sub_types_loop ::
  "Parser \<Rightarrow> PureVirtualFunction list \<Rightarrow> (string \<times> PolymorphicType) list \<Rightarrow>
     error + ((string \<times> PolymorphicType) list \<times> Parser)"
where
  "sub_types_loop p funs subs =
    (case current p of
       Inl e \<Rightarrow> Inl e
     | Inr t \<Rightarrow>
        if token_type t = PIPE then
          (case parse_subtype (parser_next p) of
             Inl e \<Rightarrow> Inl e
           | Inr (variant_name, mems, impls, p') \<Rightarrow>
              (case new_PolymorphicType funs mems impls of
                 Inl e \<Rightarrow> Inl e
               | Inr polymorphic_type \<Rightarrow>
                   sub_types_loop p' funs (AList.update variant_name polymorphic_type subs)))
        else Inr (subs, p))"
  by pat_completeness auto
termination
proof (relation "measure (\<lambda>(p, fs, subs). length (tokens p) - index p)")
  show "wf (measure (\<lambda>(p, fs, subs). length (tokens p) - index p))" by simp
next
  fix p :: Parser and funs :: "PureVirtualFunction list"
    and subs :: "(string \<times> PolymorphicType) list"
    and t x2 n y ms z ims p' pt
  assume cur: "current p = Inr t"
    and sub: "parse_subtype (parser_next p) = Inr x2" "(n, y) = x2" "(ms, z) = y" "(ims, p') = z"
  from sub have "parse_subtype (parser_next p) = Inr (n, ms, ims, p')" by simp
  then have "advances (parser_next p) p'" by (rule parse_subtype_advances)
  moreover have "advances p (parser_next p)"
    using cur by (intro parser_next_advances current_in_range)
  ultimately have "advances p p'" by (rule advances_trans [rotated])
  then show "((p', funs, AList.update n pt subs), p, funs, subs)
      \<in> measure (\<lambda>(p, fs, subs). length (tokens p) - index p)"
    by (simp add: advances_measure)
qed

declare sub_types_loop.simps [simp del]

lemma sub_types_loop_follows:
  "sub_types_loop p funs acc = Inr (subs, p') \<Longrightarrow>
     tokens p' = tokens p \<and> index p \<le> index p' \<and> index p' < length (tokens p)"
proof (induction p funs acc rule: sub_types_loop.induct)
  case (1 p funs acc)
  from "1.prems" obtain t where cur: "current p = Inr t"
    by (subst (asm) sub_types_loop.simps) (simp split: sum.splits)
  show ?case
  proof (cases "token_type t = PIPE")
    case True
    with "1.prems" cur obtain n ms ims p1 pt where
      ps: "parse_subtype (parser_next p) = Inr (n, ms, ims, p1)"
      and pt: "new_PolymorphicType funs ms ims = Inr pt"
      and rec: "sub_types_loop p1 funs (AList.update n pt acc) = Inr (subs, p')"
      by (subst (asm) sub_types_loop.simps) (auto split: sum.splits)
    from "1.IH" [OF cur True ps refl refl refl pt rec] parse_subtype_advances [OF ps]
    show ?thesis by (simp add: advances_def parser_next_def)
  next
    case False
    with "1.prems" cur current_in_range [OF cur] show ?thesis
      by (subst (asm) sub_types_loop.simps) simp
  qed
qed


text \<open>
  The branch \<^verbatim>\<open>case TokenType.IDENTIFIER\<close> of \<^verbatim>\<open>parse\<close> (lines 129 to 155), up to
  the assignment into \<^verbatim>\<open>polymorphic_types\<close>, which the loop below performs: the header
  with the shared members and the operation declarations, the first variant, and the
  variants behind each pipe. Each variant is built by \<^const>\<open>new_PolymorphicType\<close> right
  after its tokens are parsed.
\<close>

definition parse_abstract_type :: "Parser \<Rightarrow> error + (string \<times> AbstractType \<times> Parser)" where
  "parse_abstract_type p =
    (case consume IDENTIFIER p of
       Inl e \<Rightarrow> Inl e
     | Inr (identifier, p1) \<Rightarrow>
    (case consume LEFT_PARENTHESIS p1 of
       Inl e \<Rightarrow> Inl e
     | Inr (_, p2) \<Rightarrow>
    (case base_type_members_loop p2 [] of
       Inl e \<Rightarrow> Inl e
     | Inr (base_type_members, p3) \<Rightarrow>
    (case functions_loop p3 [] of
       Inl e \<Rightarrow> Inl e
     | Inr (funs, p4) \<Rightarrow>
    (case consume RIGHT_PARENTHESIS p4 of
       Inl e \<Rightarrow> Inl e
     | Inr (_, p5) \<Rightarrow>
    (case consume EQUALS p5 of
       Inl e \<Rightarrow> Inl e
     | Inr (_, p6) \<Rightarrow>
    (case parse_subtype p6 of
       Inl e \<Rightarrow> Inl e
     | Inr (variant_name, mems, impls, p7) \<Rightarrow>
    (case new_PolymorphicType funs mems impls of
       Inl e \<Rightarrow> Inl e
     | Inr polymorphic_type \<Rightarrow>
    (case sub_types_loop p7 funs (AList.update variant_name polymorphic_type []) of
       Inl e \<Rightarrow> Inl e
     | Inr (subs, p8) \<Rightarrow>
         Inr (lexeme identifier,
              \<lparr>sub_types = subs, AbstractType.members = base_type_members,
               AbstractType.pure_virtual_functions = funs\<rparr>,
              p8))))))))))"

lemma parse_abstract_type_advances:
  assumes "parse_abstract_type p = Inr (n, a, p')"
  shows "advances p p'"
proof -
  from assms obtain t1 p1 t2 p2 bs p3 fs p4 t5 p5 t6 p6 v ms ims p7 pt subs where
    "consume IDENTIFIER p = Inr (t1, p1)" "consume LEFT_PARENTHESIS p1 = Inr (t2, p2)"
    "base_type_members_loop p2 [] = Inr (bs, p3)" "functions_loop p3 [] = Inr (fs, p4)"
    "consume RIGHT_PARENTHESIS p4 = Inr (t5, p5)" "consume EQUALS p5 = Inr (t6, p6)"
    "parse_subtype p6 = Inr (v, ms, ims, p7)"
    "sub_types_loop p7 fs (AList.update v pt []) = Inr (subs, p')"
    by (auto simp: parse_abstract_type_def split: sum.splits)
  then show ?thesis
    by (auto dest!: consume_advances base_type_members_loop_follows functions_loop_follows
                    parse_subtype_advances sub_types_loop_follows
             simp: advances_def)
qed

text \<open>
  The \<^verbatim>\<open>while not parser.is_end_of_input()\<close> loop of \<^verbatim>\<open>parse\<close>, with the two collections
  it fills. It returns them with the postlude, which is empty unless the loop ends at the
  \<^verbatim>\<open>break\<close> of the string-literal branch.
\<close>

function parse_loop ::
  "Parser \<Rightarrow> (string \<times> string) list \<Rightarrow> (string \<times> AbstractType) list \<Rightarrow>
     error + ((string \<times> string) list \<times> (string \<times> AbstractType) list \<times> string \<times> Parser)"
where
  "parse_loop p tdefs ptypes =
    (if is_end_of_input p then Inr (tdefs, ptypes, [], p)
     else
       (case current p of
          Inl e \<Rightarrow> Inl e
        | Inr t \<Rightarrow>
           if token_type t = TYPE_KEYWORD then
             (case parse_type_definition p of
                Inl e \<Rightarrow> Inl e
              | Inr (d, p') \<Rightarrow> parse_loop p' (tdefs @ [d]) ptypes)
           else if token_type t = IDENTIFIER then
             (case parse_abstract_type p of
                Inl e \<Rightarrow> Inl e
              | Inr (identifier, a, p') \<Rightarrow> parse_loop p' tdefs (AList.update identifier a ptypes))
           else if token_type t = STRING_LITERAL then
             Inr (tdefs, ptypes, strip (slice1 (lexeme t)), parser_next p)
           else Inl (ParserError (UnrecognizedFileLevelConstruct (token_type t)))))"
  by pat_completeness auto
termination
proof (relation "measure (\<lambda>(p, tdefs, ptypes). length (tokens p) - index p)")
  show "wf (measure (\<lambda>(p, tdefs, ptypes). length (tokens p) - index p))" by simp
next
  fix p :: Parser and tdefs :: "(string \<times> string) list"
    and ptypes :: "(string \<times> AbstractType) list" and t x d p'
  assume "current p = Inr t" and "parse_type_definition p = Inr x" and "(d, p') = x"
  then have "advances p p'"
    by (auto intro: parse_type_definition_advances current_in_range)
  then show "((p', tdefs @ [d], ptypes), p, tdefs, ptypes)
      \<in> measure (\<lambda>(p, tdefs, ptypes). length (tokens p) - index p)"
    by (simp add: advances_measure)
next
  fix p :: Parser and tdefs :: "(string \<times> string) list"
    and ptypes :: "(string \<times> AbstractType) list" and x n y a p'
  assume "parse_abstract_type p = Inr x" and "(n, y) = x" and "(a, p') = y"
  then have "advances p p'"
    by (auto intro: parse_abstract_type_advances)
  then show "((p', tdefs, AList.update n a ptypes), p, tdefs, ptypes)
      \<in> measure (\<lambda>(p, tdefs, ptypes). length (tokens p) - index p)"
    by (simp add: advances_measure)
qed

declare parse_loop.simps [simp del]

text \<open>
  \<^verbatim>\<open>parse\<close>: the prelude is read from \<^verbatim>\<open>parser.current()\<close> before any test for the end of
  the input; behind the loop, anything but the end of the input is an error.
\<close>

definition parse :: "Token list \<Rightarrow> error + GeneratorDescription" where
  "parse toks =
    (let parser = \<lparr>tokens = toks, index = 0\<rparr>
     in case current parser of
          Inl e \<Rightarrow> Inl e
        | Inr t \<Rightarrow>
           (let (pre, parser1) =
                  (if token_type t = STRING_LITERAL
                   then (strip (slice1 (lexeme t)), parser_next parser)
                   else ([], parser))
            in case parse_loop parser1 [] [] of
                 Inl e \<Rightarrow> Inl e
               | Inr (tdefs, ptypes, post, parser2) \<Rightarrow>
                   if \<not> is_end_of_input parser2
                   then Inl (ParserError TrailingContentAfterPostlude)
                   else Inr \<lparr>prelude = pre, type_definitions = tdefs,
                             abstract_types = ptypes, postlude = post\<rparr>))"

lemma card_set_neq_length: "card (set xs) \<noteq> length xs \<longleftrightarrow> \<not> distinct xs"
  using card_distinct distinct_card by metis

section \<open>Running the parser on a cursor\<close>

text \<open>
  \<open>at pre rest\<close> is the cursor that has read the tokens \<open>pre\<close> and has \<open>rest\<close> before it.
  On such a cursor the operations of the class are functions of \<open>rest\<close> alone.
\<close>

definition at :: "Token list \<Rightarrow> Token list \<Rightarrow> Parser" where
  "at pre rest = \<lparr>tokens = pre @ rest, index = length pre\<rparr>"

definition tok :: "TokenType \<Rightarrow> string \<Rightarrow> Token" where
  "tok ty l = \<lparr>token_type = ty, lexeme = l\<rparr>"

lemma tok_sel [simp]: "token_type (tok ty l) = ty" "lexeme (tok ty l) = l"
  by (simp_all add: tok_def)

lemma current_at [simp]:
  "current (at pre (t # rest)) = Inr t" "current (at pre []) = Inl IndexError"
  by (simp_all add: current_def at_def)

lemma parser_next_at [simp]: "parser_next (at pre (t # rest)) = at (pre @ [t]) rest"
  by (simp add: parser_next_def at_def)

lemma is_end_of_input_at [simp]:
  "is_end_of_input (at pre (t # rest)) \<longleftrightarrow> token_type t = END_OF_INPUT"
  "is_end_of_input (at pre [])"
  by (simp_all add: is_end_of_input_def at_def)

lemma consume_at [simp]:
  "consume ty (at pre (t # rest)) =
     (if token_type t = END_OF_INPUT then Inl (ParserError UnexpectedEndOfInput)
      else if token_type t \<noteq> ty
        then Inl (ParserError (UnexpectedToken ty (token_type t) (lexeme t)))
      else Inr (t, at (pre @ [t]) rest))"
  "consume ty (at pre []) = Inl (ParserError UnexpectedEndOfInput)"
  by (simp_all add: consume_def parser_next_at) (simp_all add: at_def)

section \<open>The grammar\<close>

text \<open>
  The declarations of a source text, in the order in which they are written, and the token
  sequence of each (section 4.2 of the specification). A string literal is kept as its raw
  lexeme. \<open>kw\<close> gives the lexeme of each keyword and punctuation token; the parser never
  looks at it.
\<close>

type_synonym member_decl = "string \<times> bool \<times> string"
type_synonym op_decl = "string \<times> string"
type_synonym impl_decl = "string \<times> string"

datatype variant_item = MemberItem member_decl | ImplItem impl_decl

type_synonym variant_decl = "string \<times> variant_item list"

datatype file_item =
    TypeDef string string
  | AbstractTypeDef string "member_decl list" "op_decl list" variant_decl "variant_decl list"

fun member_tokens :: "(TokenType \<Rightarrow> string) \<Rightarrow> member_decl \<Rightarrow> Token list" where
  "member_tokens kw (n, moved, l) =
     tok IDENTIFIER n # (if moved then [tok BY_MOVE (kw BY_MOVE)] else [])
       @ [tok STRING_LITERAL l]"

fun op_tokens :: "(TokenType \<Rightarrow> string) \<Rightarrow> op_decl \<Rightarrow> Token list" where
  "op_tokens kw (n, l) = [tok FUNCTION (kw FUNCTION), tok IDENTIFIER n, tok STRING_LITERAL l]"

fun impl_tokens :: "(TokenType \<Rightarrow> string) \<Rightarrow> impl_decl \<Rightarrow> Token list" where
  "impl_tokens kw (n, l) = [tok IMPLEMENT (kw IMPLEMENT), tok IDENTIFIER n, tok STRING_LITERAL l]"

fun item_tokens :: "(TokenType \<Rightarrow> string) \<Rightarrow> variant_item \<Rightarrow> Token list" where
  "item_tokens kw (MemberItem m) = member_tokens kw m"
| "item_tokens kw (ImplItem i) = impl_tokens kw i"

fun variant_tokens :: "(TokenType \<Rightarrow> string) \<Rightarrow> variant_decl \<Rightarrow> Token list" where
  "variant_tokens kw (n, items) =
     tok IDENTIFIER n # tok LEFT_PARENTHESIS (kw LEFT_PARENTHESIS)
       # concat (map (item_tokens kw) items) @ [tok RIGHT_PARENTHESIS (kw RIGHT_PARENTHESIS)]"

definition piped_tokens :: "(TokenType \<Rightarrow> string) \<Rightarrow> variant_decl list \<Rightarrow> Token list" where
  "piped_tokens kw vs = concat (map (\<lambda>v. tok PIPE (kw PIPE) # variant_tokens kw v) vs)"

definition header_tokens ::
  "(TokenType \<Rightarrow> string) \<Rightarrow> string \<Rightarrow> member_decl list \<Rightarrow> op_decl list \<Rightarrow> Token list"
where
  "header_tokens kw n ms ops =
     tok IDENTIFIER n # tok LEFT_PARENTHESIS (kw LEFT_PARENTHESIS)
       # concat (map (member_tokens kw) ms) @ concat (map (op_tokens kw) ops)
       @ [tok RIGHT_PARENTHESIS (kw RIGHT_PARENTHESIS), tok EQUALS (kw EQUALS)]"

fun file_item_tokens :: "(TokenType \<Rightarrow> string) \<Rightarrow> file_item \<Rightarrow> Token list" where
  "file_item_tokens kw (TypeDef n l) =
     [tok TYPE_KEYWORD (kw TYPE_KEYWORD), tok IDENTIFIER n, tok STRING_LITERAL l]"
| "file_item_tokens kw (AbstractTypeDef n ms ops v vs) =
     header_tokens kw n ms ops @ variant_tokens kw v @ piped_tokens kw vs"

text \<open>
  What each declaration stands for: the value that the parser is expected to build.
\<close>

definition unquote :: "string \<Rightarrow> string" where
  "unquote l = strip (slice1 l)"

fun member_of :: "member_decl \<Rightarrow> Member" where
  "member_of (n, moved, l) = \<lparr>Member.name = n, by_move = moved, member_type = unquote l\<rparr>"

fun op_of :: "op_decl \<Rightarrow> PureVirtualFunction" where
  "op_of (n, l) =
     \<lparr>PureVirtualFunction.name = n,
      return_type = (if unquote l = [] then None else Some (unquote l))\<rparr>"

fun impl_of :: "impl_decl \<Rightarrow> Implementation" where
  "impl_of (n, l) = \<lparr>Implementation.name = n, body = unquote l\<rparr>"

fun item_members :: "variant_item list \<Rightarrow> Member list" where
  "item_members [] = []"
| "item_members (MemberItem m # items) = member_of m # item_members items"
| "item_members (ImplItem i # items) = item_members items"

fun item_impls :: "variant_item list \<Rightarrow> Implementation list" where
  "item_impls [] = []"
| "item_impls (MemberItem m # items) = item_impls items"
| "item_impls (ImplItem i # items) = impl_of i # item_impls items"

section \<open>The productions on the tokens of a declaration\<close>

lemma parse_data_member_at:
  "parse_data_member (at pre (member_tokens kw m @ rest)) =
     Inr (member_of m, at (pre @ member_tokens kw m) rest)"
  by (cases m) (simp add: parse_data_member_def unquote_def)

lemma parse_implementation_at:
  "parse_implementation (at pre (impl_tokens kw i @ rest)) =
     Inr (impl_of i, at (pre @ impl_tokens kw i) rest)"
  by (cases i) (simp add: parse_implementation_def unquote_def)

lemma parse_pure_virtual_function_at:
  "parse_pure_virtual_function (at pre (op_tokens kw d @ rest)) =
     Inr (op_of d, at (pre @ op_tokens kw d) rest)"
  by (cases d) (simp add: parse_pure_virtual_function_def unquote_def)

lemma parse_type_definition_at:
  "parse_type_definition (at pre (file_item_tokens kw (TypeDef n l) @ rest)) =
     Inr ((n, unquote l), at (pre @ file_item_tokens kw (TypeDef n l)) rest)"
  by (simp add: parse_type_definition_def unquote_def)

lemma base_type_members_loop_step:
  "current p = Inr t \<Longrightarrow>
   base_type_members_loop p acc =
     (if token_type t = IDENTIFIER then
        (case parse_data_member p of
           Inl e \<Rightarrow> Inl e
         | Inr (m, p') \<Rightarrow> base_type_members_loop p' (acc @ [m]))
      else Inr (acc, p))"
  by (subst base_type_members_loop.simps) simp

lemma member_tokens_hd: "\<exists>n ts. member_tokens kw m = tok IDENTIFIER n # ts"
  by (cases m) auto

lemma base_type_members_loop_at:
  assumes "rest \<noteq> []" "token_type (hd rest) \<noteq> IDENTIFIER"
  shows "base_type_members_loop (at pre (concat (map (member_tokens kw) ms) @ rest)) acc =
     Inr (acc @ map member_of ms, at (pre @ concat (map (member_tokens kw) ms)) rest)"
proof (induction ms arbitrary: pre acc)
  case Nil
  from assms obtain t rest' where "rest = t # rest'" by (cases rest) auto
  with assms show ?case by (simp add: base_type_members_loop_step [of _ t])
next
  case (Cons m ms)
  let ?tail = "concat (map (member_tokens kw) ms) @ rest"
  let ?p = "at pre (member_tokens kw m @ ?tail)"
  obtain n ts where hd: "member_tokens kw m = tok IDENTIFIER n # ts"
    using member_tokens_hd by blast
  have cur: "current ?p = Inr (tok IDENTIFIER n)"
    by (simp add: hd)
  have "base_type_members_loop ?p acc =
      base_type_members_loop (at (pre @ member_tokens kw m) ?tail) (acc @ [member_of m])"
    by (simp add: base_type_members_loop_step [OF cur] parse_data_member_at)
  also have "\<dots> = Inr ((acc @ [member_of m]) @ map member_of ms,
      at ((pre @ member_tokens kw m) @ concat (map (member_tokens kw) ms)) rest)"
    by (rule Cons.IH)
  finally show ?case by simp
qed


lemma functions_loop_step:
  "current p = Inr t \<Longrightarrow>
   functions_loop p acc =
     (if token_type t = FUNCTION then
        (case parse_pure_virtual_function p of
           Inl e \<Rightarrow> Inl e
         | Inr (f, p') \<Rightarrow> functions_loop p' (acc @ [f]))
      else Inr (acc, p))"
  by (subst functions_loop.simps) simp

lemma op_tokens_hd: "\<exists>l ts. op_tokens kw d = tok FUNCTION l # ts"
  by (cases d) auto

lemma functions_loop_at:
  assumes "rest \<noteq> []" "token_type (hd rest) \<noteq> FUNCTION"
  shows "functions_loop (at pre (concat (map (op_tokens kw) ops) @ rest)) acc =
     Inr (acc @ map op_of ops, at (pre @ concat (map (op_tokens kw) ops)) rest)"
proof (induction ops arbitrary: pre acc)
  case Nil
  from assms obtain t rest' where "rest = t # rest'" by (cases rest) auto
  with assms show ?case by (simp add: functions_loop_step [of _ t])
next
  case (Cons d ops)
  let ?tail = "concat (map (op_tokens kw) ops) @ rest"
  let ?p = "at pre (op_tokens kw d @ ?tail)"
  obtain l ts where hd: "op_tokens kw d = tok FUNCTION l # ts"
    using op_tokens_hd by blast
  have cur: "current ?p = Inr (tok FUNCTION l)"
    by (simp add: hd)
  have "functions_loop ?p acc =
      functions_loop (at (pre @ op_tokens kw d) ?tail) (acc @ [op_of d])"
    by (simp add: functions_loop_step [OF cur] parse_pure_virtual_function_at)
  also have "\<dots> = Inr ((acc @ [op_of d]) @ map op_of ops,
      at ((pre @ op_tokens kw d) @ concat (map (op_tokens kw) ops)) rest)"
    by (rule Cons.IH)
  finally show ?case by simp
qed

lemma subtype_loop_step:
  "current p = Inr t \<Longrightarrow>
   subtype_loop p mems impls =
     (if token_type t = IDENTIFIER then
        (case parse_data_member p of
           Inl e \<Rightarrow> Inl e
         | Inr (m, p') \<Rightarrow> subtype_loop p' (mems @ [m]) impls)
      else if token_type t = IMPLEMENT then
        (case parse_implementation p of
           Inl e \<Rightarrow> Inl e
         | Inr (i, p') \<Rightarrow> subtype_loop p' mems (impls @ [i]))
      else Inr (mems, impls, p))"
  by (subst subtype_loop.simps) simp

lemma impl_tokens_hd: "\<exists>l ts. impl_tokens kw i = tok IMPLEMENT l # ts"
  by (cases i) auto

lemma subtype_loop_at:
  assumes "rest \<noteq> []" "token_type (hd rest) \<noteq> IDENTIFIER" "token_type (hd rest) \<noteq> IMPLEMENT"
  shows "subtype_loop (at pre (concat (map (item_tokens kw) items) @ rest)) mems impls =
     Inr (mems @ item_members items, impls @ item_impls items,
          at (pre @ concat (map (item_tokens kw) items)) rest)"
proof (induction items arbitrary: pre mems impls)
  case Nil
  from assms obtain t rest' where "rest = t # rest'" by (cases rest) auto
  with assms show ?case by (simp add: subtype_loop_step [of _ t])
next
  case (Cons x items)
  let ?tail = "concat (map (item_tokens kw) items) @ rest"
  show ?case
  proof (cases x)
    case (MemberItem m)
    let ?p = "at pre (member_tokens kw m @ ?tail)"
    obtain n ts where hd: "member_tokens kw m = tok IDENTIFIER n # ts"
      using member_tokens_hd by blast
    have cur: "current ?p = Inr (tok IDENTIFIER n)"
      by (simp add: hd)
    have "subtype_loop ?p mems impls =
        subtype_loop (at (pre @ member_tokens kw m) ?tail) (mems @ [member_of m]) impls"
      by (simp add: subtype_loop_step [OF cur] parse_data_member_at)
    also have "\<dots> = Inr ((mems @ [member_of m]) @ item_members items,
        impls @ item_impls items,
        at ((pre @ member_tokens kw m) @ concat (map (item_tokens kw) items)) rest)"
      by (rule Cons.IH)
    finally show ?thesis by (simp add: MemberItem)
  next
    case (ImplItem i)
    let ?p = "at pre (impl_tokens kw i @ ?tail)"
    obtain l ts where hd: "impl_tokens kw i = tok IMPLEMENT l # ts"
      using impl_tokens_hd by blast
    have cur: "current ?p = Inr (tok IMPLEMENT l)"
      by (simp add: hd)
    have "subtype_loop ?p mems impls =
        subtype_loop (at (pre @ impl_tokens kw i) ?tail) mems (impls @ [impl_of i])"
      by (simp add: subtype_loop_step [OF cur] parse_implementation_at)
    also have "\<dots> = Inr (mems @ item_members items,
        (impls @ [impl_of i]) @ item_impls items,
        at ((pre @ impl_tokens kw i) @ concat (map (item_tokens kw) items)) rest)"
      by (rule Cons.IH)
    finally show ?thesis by (simp add: ImplItem)
  qed
qed

lemma parse_subtype_at:
  "parse_subtype (at pre (variant_tokens kw v @ rest)) =
     Inr (fst v, item_members (snd v), item_impls (snd v), at (pre @ variant_tokens kw v) rest)"
proof -
  obtain n items where v: "v = (n, items)" by (cases v)
  let ?close = "tok RIGHT_PARENTHESIS (kw RIGHT_PARENTHESIS)"
  let ?head = "[tok IDENTIFIER n, tok LEFT_PARENTHESIS (kw LEFT_PARENTHESIS)]"
  have loop: "subtype_loop (at (pre @ ?head) (concat (map (item_tokens kw) items) @ ?close # rest))
      [] [] =
    Inr ([] @ item_members items, [] @ item_impls items,
         at ((pre @ ?head) @ concat (map (item_tokens kw) items)) (?close # rest))"
    by (rule subtype_loop_at) simp_all
  show ?thesis
    using loop by (simp add: parse_subtype_def v)
qed


text \<open>
  A declared variant passes the checks of variant construction, given operation
  declarations without a repeated name, when its implementations have no repeated name and
  their names are the declared ones. A declaration of an abstract type is well formed when
  its operations have no repeated name and each of its variants passes.
\<close>

definition impl_names :: "variant_decl \<Rightarrow> string list" where
  "impl_names v = map Implementation.name (item_impls (snd v))"

definition variant_ok :: "op_decl list \<Rightarrow> variant_decl \<Rightarrow> bool" where
  "variant_ok ops v \<longleftrightarrow> distinct (impl_names v) \<and> set (impl_names v) = set (map fst ops)"

definition variant_of :: "op_decl list \<Rightarrow> variant_decl \<Rightarrow> PolymorphicType" where
  "variant_of ops v =
     \<lparr>PolymorphicType.pure_virtual_functions = map op_of ops,
      PolymorphicType.members = item_members (snd v),
      implementations = item_impls (snd v)\<rparr>"

text \<open>
  The assignments \<^verbatim>\<open>d[k] = v\<close> of a list of entries, one after the other.
\<close>

fun assign_all :: "('k \<times> 'v) list \<Rightarrow> ('k \<times> 'v) list \<Rightarrow> ('k \<times> 'v) list" where
  "assign_all d [] = d"
| "assign_all d ((k, v) # kvs) = assign_all (AList.update k v d) kvs"

definition variant_entry :: "op_decl list \<Rightarrow> variant_decl \<Rightarrow> string \<times> PolymorphicType" where
  "variant_entry ops v = (fst v, variant_of ops v)"

lemma assign_all_variant_entry:
  "assign_all d (variant_entry ops v # kvs) =
     assign_all (AList.update (fst v) (variant_of ops v) d) kvs"
  by (simp add: variant_entry_def)

definition abstract_of ::
  "member_decl list \<Rightarrow> op_decl list \<Rightarrow> variant_decl \<Rightarrow> variant_decl list \<Rightarrow> AbstractType"
where
  "abstract_of ms ops v vs =
     \<lparr>sub_types = assign_all [] (map (variant_entry ops) (v # vs)),
      AbstractType.members = map member_of ms,
      AbstractType.pure_virtual_functions = map op_of ops\<rparr>"

fun item_ok :: "file_item \<Rightarrow> bool" where
  "item_ok (TypeDef n l) = True"
| "item_ok (AbstractTypeDef n ms ops v vs) \<longleftrightarrow>
     distinct (map fst ops) \<and> (\<forall>v' \<in> set (v # vs). variant_ok ops v')"

text \<open>
  The type definitions and the abstract types that the declarations of a file stand for,
  in source order.
\<close>

fun typedef_entries :: "file_item list \<Rightarrow> (string \<times> string) list" where
  "typedef_entries [] = []"
| "typedef_entries (TypeDef n l # its) = (n, unquote l) # typedef_entries its"
| "typedef_entries (AbstractTypeDef n ms ops v vs # its) = typedef_entries its"

fun abstract_entries :: "file_item list \<Rightarrow> (string \<times> AbstractType) list" where
  "abstract_entries [] = []"
| "abstract_entries (TypeDef n l # its) = abstract_entries its"
| "abstract_entries (AbstractTypeDef n ms ops v vs # its) =
     (n, abstract_of ms ops v vs) # abstract_entries its"

lemma op_of_names: "map PureVirtualFunction.name (map op_of ops) = map fst ops"
  by (induction ops) auto

lemma new_PolymorphicType_variant:
  "new_PolymorphicType (map op_of ops) (item_members (snd v)) (item_impls (snd v)) =
     (if \<not> distinct (map fst ops) then Inl (ParserError DuplicateOperationDeclaration)
      else if \<not> distinct (impl_names v) then Inl (ParserError DuplicateImplementation)
      else if set (map fst ops) \<noteq> set (impl_names v)
        then Inl (ParserError IncompleteOrExcessImplementation)
      else Inr (variant_of ops v))"
  unfolding new_PolymorphicType_def card_set_neq_length op_of_names
  by (simp add: impl_names_def variant_of_def)

lemma new_PolymorphicType_ok:
  "distinct (map fst ops) \<Longrightarrow> variant_ok ops v \<Longrightarrow>
   new_PolymorphicType (map op_of ops) (item_members (snd v)) (item_impls (snd v)) =
     Inr (variant_of ops v)"
  by (simp add: new_PolymorphicType_variant variant_ok_def)

lemma sub_types_loop_step:
  "current p = Inr t \<Longrightarrow>
   sub_types_loop p funs subs =
     (if token_type t = PIPE then
        (case parse_subtype (parser_next p) of
           Inl e \<Rightarrow> Inl e
         | Inr (variant_name, mems, impls, p') \<Rightarrow>
            (case new_PolymorphicType funs mems impls of
               Inl e \<Rightarrow> Inl e
             | Inr polymorphic_type \<Rightarrow>
                 sub_types_loop p' funs (AList.update variant_name polymorphic_type subs)))
      else Inr (subs, p))"
  by (subst sub_types_loop.simps) simp

lemma sub_types_loop_at:
  assumes "rest \<noteq> []" "token_type (hd rest) \<noteq> PIPE" "distinct (map fst ops)"
  shows "\<forall>v \<in> set vs. variant_ok ops v \<Longrightarrow>
     sub_types_loop (at pre (piped_tokens kw vs @ rest)) (map op_of ops) d =
       Inr (assign_all d (map (variant_entry ops) vs), at (pre @ piped_tokens kw vs) rest)"
proof (induction vs arbitrary: pre d)
  case Nil
  from assms obtain t rest' where "rest = t # rest'" by (cases rest) auto
  with assms show ?case by (simp add: sub_types_loop_step [of _ t] piped_tokens_def)
next
  case (Cons v vs)
  let ?pipe = "tok PIPE (kw PIPE)"
  let ?tail = "piped_tokens kw vs @ rest"
  let ?p = "at pre (?pipe # variant_tokens kw v @ ?tail)"
  have cur: "current ?p = Inr ?pipe" by simp
  have ok: "variant_ok ops v" using Cons.prems by simp
  have sub: "parse_subtype (at (pre @ [?pipe]) (variant_tokens kw v @ ?tail)) =
      Inr (fst v, item_members (snd v), item_impls (snd v),
           at ((pre @ [?pipe]) @ variant_tokens kw v) ?tail)"
    by (rule parse_subtype_at)
  have "sub_types_loop ?p (map op_of ops) d =
      sub_types_loop (at ((pre @ [?pipe]) @ variant_tokens kw v) ?tail) (map op_of ops)
        (AList.update (fst v) (variant_of ops v) d)"
    by (simp add: sub_types_loop_step [OF cur] sub new_PolymorphicType_ok [OF assms(3) ok]
             del: variant_tokens.simps)
  also have "\<dots> = Inr (assign_all (AList.update (fst v) (variant_of ops v) d)
        (map (variant_entry ops) vs),
      at (((pre @ [?pipe]) @ variant_tokens kw v) @ piped_tokens kw vs) rest)"
    using Cons.prems by (intro Cons.IH) simp
  finally show ?case by (simp add: piped_tokens_def assign_all_variant_entry)
qed


lemma parse_abstract_type_header:
  "parse_abstract_type (at pre (header_tokens kw n ms ops @ variant_tokens kw v @ rest)) =
     (case new_PolymorphicType (map op_of ops) (item_members (snd v)) (item_impls (snd v)) of
        Inl e \<Rightarrow> Inl e
      | Inr polymorphic_type \<Rightarrow>
         (case sub_types_loop
                 (at (pre @ header_tokens kw n ms ops @ variant_tokens kw v) rest)
                 (map op_of ops) (AList.update (fst v) polymorphic_type []) of
            Inl e \<Rightarrow> Inl e
          | Inr (subs, p8) \<Rightarrow>
              Inr (n, \<lparr>sub_types = subs, AbstractType.members = map member_of ms,
                        AbstractType.pure_virtual_functions = map op_of ops\<rparr>, p8)))"
proof -
  let ?open = "[tok IDENTIFIER n, tok LEFT_PARENTHESIS (kw LEFT_PARENTHESIS)]"
  let ?close = "[tok RIGHT_PARENTHESIS (kw RIGHT_PARENTHESIS), tok EQUALS (kw EQUALS)]"
  let ?ms = "concat (map (member_tokens kw) ms)"
  let ?ops = "concat (map (op_tokens kw) ops)"
  let ?after = "variant_tokens kw v @ rest"
  have not_ident: "?ops @ ?close @ ?after \<noteq> [] \<and>
      token_type (hd (?ops @ ?close @ ?after)) \<noteq> IDENTIFIER"
  proof (cases ops)
    case Nil
    then show ?thesis by simp
  next
    case (Cons d ops')
    with op_tokens_hd [of kw d] show ?thesis by auto
  qed
  have members: "base_type_members_loop (at (pre @ ?open) (?ms @ ?ops @ ?close @ ?after)) [] =
      Inr ([] @ map member_of ms, at ((pre @ ?open) @ ?ms) (?ops @ ?close @ ?after))"
    using not_ident by (intro base_type_members_loop_at) simp_all
  have ops: "functions_loop (at (pre @ ?open @ ?ms) (?ops @ ?close @ ?after)) [] =
      Inr ([] @ map op_of ops, at ((pre @ ?open @ ?ms) @ ?ops) (?close @ ?after))"
    by (intro functions_loop_at) simp_all
  have variant: "parse_subtype (at (pre @ ?open @ ?ms @ ?ops @ ?close) (variant_tokens kw v @ rest)) =
      Inr (fst v, item_members (snd v), item_impls (snd v),
           at ((pre @ ?open @ ?ms @ ?ops @ ?close) @ variant_tokens kw v) rest)"
    by (rule parse_subtype_at)
  show ?thesis
    using members ops variant
    by (simp add: parse_abstract_type_def header_tokens_def del: variant_tokens.simps
             split: sum.splits)
qed

lemma parse_abstract_type_at:
  assumes "item_ok (AbstractTypeDef n ms ops v vs)" "rest \<noteq> []" "token_type (hd rest) \<noteq> PIPE"
  shows "parse_abstract_type (at pre (file_item_tokens kw (AbstractTypeDef n ms ops v vs) @ rest)) =
     Inr (n, abstract_of ms ops v vs,
          at (pre @ file_item_tokens kw (AbstractTypeDef n ms ops v vs)) rest)"
proof -
  from assms(1) have d: "distinct (map fst ops)" and ok: "variant_ok ops v"
    and oks: "\<forall>v' \<in> set vs. variant_ok ops v'"
    by simp_all
  have loop: "sub_types_loop
      (at (pre @ header_tokens kw n ms ops @ variant_tokens kw v) (piped_tokens kw vs @ rest))
      (map op_of ops) (AList.update (fst v) (variant_of ops v) []) =
    Inr (assign_all (AList.update (fst v) (variant_of ops v) []) (map (variant_entry ops) vs),
         at ((pre @ header_tokens kw n ms ops @ variant_tokens kw v) @ piped_tokens kw vs) rest)"
    using assms(2,3) d oks by (rule sub_types_loop_at)
  show ?thesis
    using parse_abstract_type_header [of pre kw n ms ops v "piped_tokens kw vs @ rest"] loop
    by (simp add: new_PolymorphicType_ok [OF d ok] abstract_of_def assign_all_variant_entry
             del: variant_tokens.simps)
qed

text \<open>
  The dispatch loop, unfolded once, and run over the tokens of well-formed declarations:
  it reaches the cursor behind them with the entries of the declarations added.
\<close>

lemma parse_loop_end:
  "is_end_of_input p \<Longrightarrow> parse_loop p tdefs ptypes = Inr (tdefs, ptypes, [], p)"
  by (subst parse_loop.simps) simp

lemma parse_loop_step:
  "\<not> is_end_of_input p \<Longrightarrow> current p = Inr t \<Longrightarrow>
   parse_loop p tdefs ptypes =
     (if token_type t = TYPE_KEYWORD then
        (case parse_type_definition p of
           Inl e \<Rightarrow> Inl e
         | Inr (d, p') \<Rightarrow> parse_loop p' (tdefs @ [d]) ptypes)
      else if token_type t = IDENTIFIER then
        (case parse_abstract_type p of
           Inl e \<Rightarrow> Inl e
         | Inr (identifier, a, p') \<Rightarrow> parse_loop p' tdefs (AList.update identifier a ptypes))
      else if token_type t = STRING_LITERAL then
        Inr (tdefs, ptypes, strip (slice1 (lexeme t)), parser_next p)
      else Inl (ParserError (UnrecognizedFileLevelConstruct (token_type t))))"
  by (subst parse_loop.simps) simp

lemma file_item_tokens_hd:
  "\<exists>t ts. file_item_tokens kw it = t # ts \<and>
     (token_type t = TYPE_KEYWORD \<or> token_type t = IDENTIFIER)"
  by (cases it) (auto simp: header_tokens_def)

lemma file_items_not_pipe:
  assumes "rest \<noteq> []" "token_type (hd rest) \<noteq> PIPE"
  shows "concat (map (file_item_tokens kw) its) @ rest \<noteq> [] \<and>
     token_type (hd (concat (map (file_item_tokens kw) its) @ rest)) \<noteq> PIPE"
proof (cases its)
  case Nil
  with assms show ?thesis by simp
next
  case (Cons it its')
  with file_item_tokens_hd [of kw it] show ?thesis by auto
qed

lemma parse_loop_at:
  assumes "rest \<noteq> []" "token_type (hd rest) \<noteq> PIPE"
  shows "\<forall>it \<in> set its. item_ok it \<Longrightarrow>
     parse_loop (at pre (concat (map (file_item_tokens kw) its) @ rest)) tdefs ptypes =
     parse_loop (at (pre @ concat (map (file_item_tokens kw) its)) rest)
       (tdefs @ typedef_entries its) (assign_all ptypes (abstract_entries its))"
proof (induction its arbitrary: pre tdefs ptypes)
  case Nil
  show ?case by simp
next
  case (Cons it its)
  let ?tail = "concat (map (file_item_tokens kw) its) @ rest"
  let ?p = "at pre (file_item_tokens kw it @ ?tail)"
  have IH: "\<And>pre tdefs ptypes. parse_loop (at pre ?tail) tdefs ptypes =
      parse_loop (at (pre @ concat (map (file_item_tokens kw) its)) rest)
        (tdefs @ typedef_entries its) (assign_all ptypes (abstract_entries its))"
    using Cons.prems by (intro Cons.IH) simp
  show ?case
  proof (cases it)
    case (TypeDef n l)
    let ?t = "tok TYPE_KEYWORD (kw TYPE_KEYWORD)"
    have cur: "current ?p = Inr ?t" and more: "\<not> is_end_of_input ?p"
      by (simp_all add: TypeDef)
    have "parse_loop ?p tdefs ptypes =
        parse_loop (at (pre @ file_item_tokens kw it) ?tail) (tdefs @ [(n, unquote l)]) ptypes"
      by (subst parse_loop_step [OF more cur])
         (use parse_type_definition_at [of pre kw n l ?tail] in \<open>simp add: TypeDef\<close>)
    then show ?thesis by (simp add: IH TypeDef)
  next
    case (AbstractTypeDef n ms ops v vs)
    let ?t = "tok IDENTIFIER n"
    have cur: "current ?p = Inr ?t" and more: "\<not> is_end_of_input ?p"
      by (simp_all add: AbstractTypeDef header_tokens_def)
    have ok: "item_ok (AbstractTypeDef n ms ops v vs)"
      using Cons.prems AbstractTypeDef by simp
    have tail: "?tail \<noteq> []" "token_type (hd ?tail) \<noteq> PIPE"
      using file_items_not_pipe [OF assms] by simp_all
    have "parse_loop ?p tdefs ptypes =
        parse_loop (at (pre @ file_item_tokens kw it) ?tail) tdefs
          (AList.update n (abstract_of ms ops v vs) ptypes)"
      by (subst parse_loop_step [OF more cur])
         (use parse_abstract_type_at [OF ok tail, of pre kw] in
           \<open>simp add: AbstractTypeDef del: file_item_tokens.simps\<close>)
    then show ?thesis by (simp add: IH AbstractTypeDef del: file_item_tokens.simps)
  qed
qed

section \<open>Whole files\<close>

fun literal_tokens :: "string option \<Rightarrow> Token list" where
  "literal_tokens None = []"
| "literal_tokens (Some l) = [tok STRING_LITERAL l]"

fun literal_text :: "string option \<Rightarrow> string" where
  "literal_text None = []"
| "literal_text (Some l) = unquote l"

lemma parse_at:
  assumes "pre = None \<longrightarrow> rest \<noteq> [] \<and> token_type (hd rest) \<noteq> STRING_LITERAL"
  shows "parse (literal_tokens pre @ rest) =
    (case parse_loop (at (literal_tokens pre) rest) [] [] of
       Inl e \<Rightarrow> Inl e
     | Inr (tdefs, ptypes, post, p2) \<Rightarrow>
         if \<not> is_end_of_input p2 then Inl (ParserError TrailingContentAfterPostlude)
         else Inr \<lparr>prelude = literal_text pre, type_definitions = tdefs,
                   abstract_types = ptypes, postlude = post\<rparr>)"
proof (cases pre)
  case None
  with assms obtain t rest' where rest: "rest = t # rest'" and t: "token_type t \<noteq> STRING_LITERAL"
    by (cases rest) auto
  have start: "\<lparr>tokens = t # rest', index = 0\<rparr> = at [] (t # rest')"
    by (simp add: at_def)
  show ?thesis
    unfolding None by (simp add: parse_def rest start t split: sum.splits)
next
  case (Some l)
  have start: "\<lparr>tokens = tok STRING_LITERAL l # rest, index = 0\<rparr> = at [] (tok STRING_LITERAL l # rest)"
    by (simp add: at_def)
  show ?thesis
    unfolding Some by (simp add: parse_def start unquote_def split: sum.splits)
qed

lemma parse_loop_postlude:
  "parse_loop (at pre (tok STRING_LITERAL l # rest)) tdefs ptypes =
     Inr (tdefs, ptypes, unquote l, at (pre @ [tok STRING_LITERAL l]) rest)"
  by (subst parse_loop_step [of _ "tok STRING_LITERAL l"]) (simp_all add: unquote_def)


text \<open>
  A file: an optional prelude literal, the declarations, an optional postlude literal. A
  string literal that is the first token is always read as the prelude, so a file without
  prelude and without declarations has no postlude either.
\<close>

definition file_tokens ::
  "(TokenType \<Rightarrow> string) \<Rightarrow> string option \<Rightarrow> file_item list \<Rightarrow> string option \<Rightarrow> Token list"
where
  "file_tokens kw pre its post =
     literal_tokens pre @ concat (map (file_item_tokens kw) its) @ literal_tokens post"

definition description_of ::
  "string option \<Rightarrow> file_item list \<Rightarrow> string option \<Rightarrow> GeneratorDescription"
where
  "description_of pre its post =
     \<lparr>prelude = literal_text pre, type_definitions = typedef_entries its,
      abstract_types = assign_all [] (abstract_entries its), postlude = literal_text post\<rparr>"

lemma parse_items_then:
  assumes ok: "\<forall>it \<in> set its. item_ok it"
    and rest: "rest \<noteq> []" "token_type (hd rest) \<noteq> PIPE"
    and first: "pre = None \<and> its = [] \<longrightarrow> token_type (hd rest) \<noteq> STRING_LITERAL"
  shows "parse (literal_tokens pre @ concat (map (file_item_tokens kw) its) @ rest) =
    (case parse_loop (at (literal_tokens pre @ concat (map (file_item_tokens kw) its)) rest)
            (typedef_entries its) (assign_all [] (abstract_entries its)) of
       Inl e \<Rightarrow> Inl e
     | Inr (tdefs, ptypes, post, p2) \<Rightarrow>
         if \<not> is_end_of_input p2 then Inl (ParserError TrailingContentAfterPostlude)
         else Inr \<lparr>prelude = literal_text pre, type_definitions = tdefs,
                   abstract_types = ptypes, postlude = post\<rparr>)"
proof -
  let ?items = "concat (map (file_item_tokens kw) its)"
  have start: "pre = None \<longrightarrow> ?items @ rest \<noteq> [] \<and> token_type (hd (?items @ rest)) \<noteq> STRING_LITERAL"
  proof (cases its)
    case Nil
    with rest first show ?thesis by simp
  next
    case (Cons it its')
    with file_item_tokens_hd [of kw it] show ?thesis by auto
  qed
  show ?thesis
    unfolding parse_at [OF start] parse_loop_at [OF rest ok] by simp
qed

lemma parse_file:
  assumes ok: "\<forall>it \<in> set its. item_ok it"
    and e: "token_type e = END_OF_INPUT"
    and first: "pre = None \<and> its = [] \<longrightarrow> post = None"
  shows "parse (file_tokens kw pre its post @ e # junk) = Inr (description_of pre its post)"
proof -
  let ?rest = "literal_tokens post @ e # junk"
  let ?p = "at (literal_tokens pre @ concat (map (file_item_tokens kw) its)) ?rest"
  have r: "?rest \<noteq> []" "token_type (hd ?rest) \<noteq> PIPE"
    "pre = None \<and> its = [] \<longrightarrow> token_type (hd ?rest) \<noteq> STRING_LITERAL"
    using e first by (cases post; simp)+
  have loop: "parse_loop ?p (typedef_entries its) (assign_all [] (abstract_entries its)) =
      Inr (typedef_entries its, assign_all [] (abstract_entries its), literal_text post,
           at (literal_tokens pre @ concat (map (file_item_tokens kw) its) @ literal_tokens post)
              (e # junk))"
  proof (cases post)
    case None
    then show ?thesis using e by (simp add: parse_loop_end)
  next
    case (Some l)
    then show ?thesis by (simp add: parse_loop_postlude)
  qed
  show ?thesis
    using parse_items_then [OF ok r, of kw] loop e
    by (simp add: file_tokens_def description_of_def)
qed

section \<open>What holds of every description that is returned\<close>

lemma set_update_subset: "set (AList.update k v al) \<subseteq> insert (k, v) (set al)"
  by (induction al) auto

lemma new_PolymorphicType_Inr:
  assumes "new_PolymorphicType fs ms impls = Inr pt"
  shows "pt = \<lparr>PolymorphicType.pure_virtual_functions = fs, PolymorphicType.members = ms,
               implementations = impls\<rparr>"
    and "distinct (map PureVirtualFunction.name fs)"
    and "distinct (map Implementation.name impls)"
    and "set (map PureVirtualFunction.name fs) = set (map Implementation.name impls)"
  using assms unfolding new_PolymorphicType_def card_set_neq_length
  by (simp_all split: if_splits)

text \<open>
  \<open>implements fs pt\<close>: the variant \<open>pt\<close> was built against the operation declarations \<open>fs\<close>
  and implements each of them exactly once, and nothing else.
\<close>

definition implements :: "PureVirtualFunction list \<Rightarrow> PolymorphicType \<Rightarrow> bool" where
  "implements fs pt \<longleftrightarrow>
     PolymorphicType.pure_virtual_functions pt = fs \<and>
     distinct (map Implementation.name (implementations pt)) \<and>
     set (map Implementation.name (implementations pt)) = set (map PureVirtualFunction.name fs)"

lemma new_PolymorphicType_implements:
  assumes "new_PolymorphicType fs ms impls = Inr pt"
  shows "implements fs pt"
  using new_PolymorphicType_Inr [OF assms] by (simp add: implements_def)

lemma sub_types_loop_implements:
  "sub_types_loop p fs acc = Inr (subs, p') \<Longrightarrow>
   \<forall>(v, pt) \<in> set acc. implements fs pt \<Longrightarrow>
   \<forall>(v, pt) \<in> set subs. implements fs pt"
proof (induction p fs acc rule: sub_types_loop.induct)
  case (1 p fs acc)
  from "1.prems"(1) obtain t where cur: "current p = Inr t"
    by (subst (asm) sub_types_loop.simps) (simp split: sum.splits)
  show ?case
  proof (cases "token_type t = PIPE")
    case True
    with "1.prems"(1) cur obtain n ms ims p1 pt where
      ps: "parse_subtype (parser_next p) = Inr (n, ms, ims, p1)"
      and pt: "new_PolymorphicType fs ms ims = Inr pt"
      and rec: "sub_types_loop p1 fs (AList.update n pt acc) = Inr (subs, p')"
      by (subst (asm) sub_types_loop.simps) (auto split: sum.splits)
    have "\<forall>(v, pt) \<in> set (AList.update n pt acc). implements fs pt"
      using "1.prems"(2) new_PolymorphicType_implements [OF pt] set_update_subset [of n pt acc]
      by auto
    with "1.IH" [OF cur True ps refl refl refl pt rec] show ?thesis .
  next
    case False
    with "1.prems" cur show ?thesis
      by (subst (asm) sub_types_loop.simps) simp
  qed
qed

lemma parse_abstract_type_implements:
  assumes "parse_abstract_type p = Inr (n, a, p')"
  shows "\<forall>(v, pt) \<in> set (sub_types a). implements (AbstractType.pure_virtual_functions a) pt"
proof -
  from assms obtain fs v ms ims p7 pt subs where
    pt: "new_PolymorphicType fs ms ims = Inr pt"
    and loop: "sub_types_loop p7 fs (AList.update v pt []) = Inr (subs, p')"
    and a: "sub_types a = subs" "AbstractType.pure_virtual_functions a = fs"
    by (auto simp: parse_abstract_type_def split: sum.splits)
  have "\<forall>(v, pt) \<in> set (AList.update v pt []). implements fs pt"
    using new_PolymorphicType_implements [OF pt] by simp
  with loop have "\<forall>(v, pt) \<in> set subs. implements fs pt"
    by (rule sub_types_loop_implements)
  with a show ?thesis by simp
qed

lemma parse_loop_invariant:
  assumes step: "\<And>p n a p'. parse_abstract_type p = Inr (n, a, p') \<Longrightarrow> P a"
  shows "parse_loop p tdefs ptypes = Inr (tdefs', ptypes', post, p') \<Longrightarrow>
     \<forall>(n, a) \<in> set ptypes. P a \<Longrightarrow> \<forall>(n, a) \<in> set ptypes'. P a"
proof (induction p tdefs ptypes rule: parse_loop.induct)
  case (1 p tdefs ptypes)
  show ?case
  proof (cases "is_end_of_input p")
    case True
    with "1.prems" show ?thesis by (simp add: parse_loop_end)
  next
    case False
    then have "index p < length (tokens p)" by (simp add: is_end_of_input_def)
    then have cur: "current p = Inr (tokens p ! index p)" by (simp add: current_def)
    let ?t = "tokens p ! index p"
    note unfold = parse_loop_step [OF False cur]
    consider (tdef) "token_type ?t = TYPE_KEYWORD"
      | (abs) "token_type ?t \<noteq> TYPE_KEYWORD" "token_type ?t = IDENTIFIER"
      | (other) "token_type ?t \<noteq> TYPE_KEYWORD" "token_type ?t \<noteq> IDENTIFIER"
      by blast
    then show ?thesis
    proof cases
      case tdef
      with "1.prems"(1) obtain d p1 where pd: "parse_type_definition p = Inr (d, p1)"
        and rec: "parse_loop p1 (tdefs @ [d]) ptypes = Inr (tdefs', ptypes', post, p')"
        by (auto simp: unfold split: sum.splits)
      from "1.IH"(1) [OF False cur tdef pd refl rec "1.prems"(2)] show ?thesis .
    next
      case abs
      with "1.prems"(1) obtain n a p1 where pa: "parse_abstract_type p = Inr (n, a, p1)"
        and rec: "parse_loop p1 tdefs (AList.update n a ptypes) = Inr (tdefs', ptypes', post, p')"
        by (auto simp: unfold split: sum.splits)
      have "\<forall>(n, a) \<in> set (AList.update n a ptypes). P a"
        using "1.prems"(2) step [OF pa] set_update_subset [of n a ptypes] by auto
      with "1.IH"(2) [OF False cur abs pa refl refl rec] show ?thesis .
    next
      case other
      with "1.prems" show ?thesis
        by (auto simp: unfold split: if_splits)
    qed
  qed
qed

lemma parse_invariant:
  assumes step: "\<And>p n a p'. parse_abstract_type p = Inr (n, a, p') \<Longrightarrow> P a"
    and "parse toks = Inr g"
  shows "\<forall>(n, a) \<in> set (abstract_types g). P a"
proof -
  from assms(2) obtain p tdefs ptypes post p' where
    loop: "parse_loop p [] [] = Inr (tdefs, ptypes, post, p')" and g: "abstract_types g = ptypes"
    by (auto simp: parse_def Let_def split: sum.splits if_splits prod.splits)
  have "\<forall>(n, a) \<in> set ptypes. P a"
    using parse_loop_invariant [of P, OF step loop] by simp
  with g show ?thesis by simp
qed

section \<open>The example of the specification\<close>

text \<open>
  The end-to-end example of section 8: a prelude, the abstract type \<open>Shape\<close> with the
  operation \<open>area\<close> and the variants \<open>Circle\<close> and \<open>Square\<close>, a postlude.
\<close>

definition example_tokens :: "Token list" where
  "example_tokens =
    [tok STRING_LITERAL ''\"prelude text\"'',
     tok IDENTIFIER ''Shape'', tok LEFT_PARENTHESIS ''('',
       tok FUNCTION ''function'', tok IDENTIFIER ''area'', tok STRING_LITERAL ''\"double\"'',
     tok RIGHT_PARENTHESIS '')'', tok EQUALS ''='',
     tok IDENTIFIER ''Circle'', tok LEFT_PARENTHESIS ''('',
       tok IDENTIFIER ''radius'', tok STRING_LITERAL ''\"double\"'',
       tok IMPLEMENT ''implement'', tok IDENTIFIER ''area'',
       tok STRING_LITERAL ''\"return 3.14*radius*radius;\"'',
     tok RIGHT_PARENTHESIS '')'',
     tok PIPE ''|'',
     tok IDENTIFIER ''Square'', tok LEFT_PARENTHESIS ''('',
       tok IDENTIFIER ''side'', tok STRING_LITERAL ''\"double\"'',
       tok IMPLEMENT ''implement'', tok IDENTIFIER ''area'',
       tok STRING_LITERAL ''\"return side*side;\"'',
     tok RIGHT_PARENTHESIS '')'',
     tok STRING_LITERAL ''\"postlude text\"'',
     tok END_OF_INPUT []]"

definition example_area :: PureVirtualFunction where
  "example_area = \<lparr>PureVirtualFunction.name = ''area'', return_type = Some ''double''\<rparr>"

definition example_circle :: PolymorphicType where
  "example_circle =
     \<lparr>PolymorphicType.pure_virtual_functions = [example_area],
      PolymorphicType.members =
        [\<lparr>Member.name = ''radius'', by_move = False, member_type = ''double''\<rparr>],
      implementations =
        [\<lparr>Implementation.name = ''area'', body = ''return 3.14*radius*radius;''\<rparr>]\<rparr>"

definition example_square :: PolymorphicType where
  "example_square =
     \<lparr>PolymorphicType.pure_virtual_functions = [example_area],
      PolymorphicType.members =
        [\<lparr>Member.name = ''side'', by_move = False, member_type = ''double''\<rparr>],
      implementations =
        [\<lparr>Implementation.name = ''area'', body = ''return side*side;''\<rparr>]\<rparr>"

definition example_shape :: AbstractType where
  "example_shape =
     \<lparr>sub_types = [(''Circle'', example_circle), (''Square'', example_square)],
      AbstractType.members = [],
      AbstractType.pure_virtual_functions = [example_area]\<rparr>"

definition example_description :: GeneratorDescription where
  "example_description =
     \<lparr>prelude = ''prelude text'', type_definitions = [],
      abstract_types = [(''Shape'', example_shape)], postlude = ''postlude text''\<rparr>"

text \<open>
  The usual lexemes of the keywords and of the punctuation, and two further files: one with
  several declarations of each kind, one with a repeated variant name.
\<close>

definition keyword_lexeme :: "TokenType \<Rightarrow> string" where
  "keyword_lexeme k =
     (if k = TYPE_KEYWORD then ''type'' else if k = FUNCTION then ''function''
      else if k = IMPLEMENT then ''implement'' else if k = BY_MOVE then ''by_move''
      else if k = LEFT_PARENTHESIS then ''('' else if k = RIGHT_PARENTHESIS then '')''
      else if k = EQUALS then ''='' else if k = PIPE then ''|'' else [])"

definition ordered_items :: "file_item list" where
  "ordered_items =
    [TypeDef ''Id'' ''\"int\"'',
     AbstractTypeDef ''Shape'' [(''label'', True, ''\"std::string\"'')]
       [(''area'', ''\"double\"''), (''draw'', ''\"\"'')]
       (''Circle'', [MemberItem (''radius'', False, ''\"double\"''),
                     ImplItem (''draw'', ''\"\"''), ImplItem (''area'', ''\"return 3;\"'')])
       [(''Square'', [ImplItem (''area'', ''\"return 4;\"''), ImplItem (''draw'', ''\"\"'')])],
     TypeDef ''Name'' ''\"  std::string  \"'',
     AbstractTypeDef ''Token'' [] [] (''Word'', []) [(''Eof'', [])]]"

definition repeated_items :: "file_item list" where
  "repeated_items =
    [AbstractTypeDef ''T'' [] []
       (''A'', [MemberItem (''x'', False, ''\"1\"'')])
       [(''B'', []), (''A'', [MemberItem (''y'', False, ''\"2\"'')])]]"

lemma parse_example: "parse example_tokens = Inr example_description"
  by code_simp

lemma advance_examples:
  "parse_subtype (parser_next (at [] [tok PIPE ''|'', tok IDENTIFIER ''A'',
       tok LEFT_PARENTHESIS ''('', tok RIGHT_PARENTHESIS '')'', tok END_OF_INPUT []])) =
     Inr (''A'', [], [],
          at [tok PIPE ''|'', tok IDENTIFIER ''A'', tok LEFT_PARENTHESIS ''('',
              tok RIGHT_PARENTHESIS '')''] [tok END_OF_INPUT []])"
  "parse_abstract_type (at [] [tok IDENTIFIER ''T'', tok LEFT_PARENTHESIS ''('',
       tok RIGHT_PARENTHESIS '')'', tok EQUALS ''='', tok IDENTIFIER ''A'',
       tok LEFT_PARENTHESIS ''('', tok RIGHT_PARENTHESIS '')'', tok END_OF_INPUT []]) =
     Inr (''T'',
          \<lparr>sub_types = [(''A'', \<lparr>PolymorphicType.pure_virtual_functions = [],
                                   PolymorphicType.members = [], implementations = []\<rparr>)],
           AbstractType.members = [], AbstractType.pure_virtual_functions = []\<rparr>,
          at [tok IDENTIFIER ''T'', tok LEFT_PARENTHESIS ''('',
              tok RIGHT_PARENTHESIS '')'', tok EQUALS ''='', tok IDENTIFIER ''A'',
              tok LEFT_PARENTHESIS ''('', tok RIGHT_PARENTHESIS '')''] [tok END_OF_INPUT []])"
  by code_simp+

section \<open>Variant construction\<close>

text \<open>
  C2. The three checks of variant construction run in a fixed order and the first one that
  is violated decides the error: a repeated operation-declaration name wins over everything
  else; without one, a repeated implementation name wins over a difference of the two name
  sets; only when both lists are free of repetitions is the difference reported. When no
  check is violated the variant is built from the three arguments.
\<close>

theorem validation_order:
  "(\<not> distinct (map PureVirtualFunction.name fs) \<longrightarrow>
      new_PolymorphicType fs ms impls = Inl (ParserError DuplicateOperationDeclaration)) \<and>
   (distinct (map PureVirtualFunction.name fs) \<and> \<not> distinct (map Implementation.name impls) \<longrightarrow>
      new_PolymorphicType fs ms impls = Inl (ParserError DuplicateImplementation)) \<and>
   (distinct (map PureVirtualFunction.name fs) \<and> distinct (map Implementation.name impls) \<and>
    set (map PureVirtualFunction.name fs) \<noteq> set (map Implementation.name impls) \<longrightarrow>
      new_PolymorphicType fs ms impls = Inl (ParserError IncompleteOrExcessImplementation)) \<and>
   (distinct (map PureVirtualFunction.name fs) \<and> distinct (map Implementation.name impls) \<and>
    set (map PureVirtualFunction.name fs) = set (map Implementation.name impls) \<longrightarrow>
      new_PolymorphicType fs ms impls =
        Inr \<lparr>PolymorphicType.pure_virtual_functions = fs, PolymorphicType.members = ms,
             implementations = impls\<rparr>)"
  unfolding new_PolymorphicType_def card_set_neq_length by simp


theorem validation_order_witness:
  "new_PolymorphicType
     [\<lparr>PureVirtualFunction.name = ''area'', return_type = None\<rparr>,
      \<lparr>PureVirtualFunction.name = ''area'', return_type = None\<rparr>] []
     [\<lparr>Implementation.name = ''render'', body = []\<rparr>,
      \<lparr>Implementation.name = ''render'', body = []\<rparr>]
     = Inl (ParserError DuplicateOperationDeclaration) \<and>
   new_PolymorphicType
     [\<lparr>PureVirtualFunction.name = ''area'', return_type = None\<rparr>,
      \<lparr>PureVirtualFunction.name = ''perimeter'', return_type = None\<rparr>] []
     [\<lparr>Implementation.name = ''area'', body = []\<rparr>,
      \<lparr>Implementation.name = ''area'', body = []\<rparr>]
     = Inl (ParserError DuplicateImplementation) \<and>
   new_PolymorphicType
     [\<lparr>PureVirtualFunction.name = ''area'', return_type = None\<rparr>] []
     [\<lparr>Implementation.name = ''render'', body = []\<rparr>]
     = Inl (ParserError IncompleteOrExcessImplementation) \<and>
   new_PolymorphicType
     [\<lparr>PureVirtualFunction.name = ''area'', return_type = None\<rparr>] []
     [\<lparr>Implementation.name = ''area'', body = []\<rparr>]
     = Inr \<lparr>PolymorphicType.pure_virtual_functions =
              [\<lparr>PureVirtualFunction.name = ''area'', return_type = None\<rparr>],
            PolymorphicType.members = [],
            implementations = [\<lparr>Implementation.name = ''area'', body = []\<rparr>]\<rparr>"
  using
    validation_order [of
      "[\<lparr>PureVirtualFunction.name = ''area'', return_type = None\<rparr>,
        \<lparr>PureVirtualFunction.name = ''area'', return_type = None\<rparr>]" "[]"
      "[\<lparr>Implementation.name = ''render'', body = []\<rparr>,
        \<lparr>Implementation.name = ''render'', body = []\<rparr>]"]
    validation_order [of
      "[\<lparr>PureVirtualFunction.name = ''area'', return_type = None\<rparr>,
        \<lparr>PureVirtualFunction.name = ''perimeter'', return_type = None\<rparr>]" "[]"
      "[\<lparr>Implementation.name = ''area'', body = []\<rparr>,
        \<lparr>Implementation.name = ''area'', body = []\<rparr>]"]
    validation_order [of
      "[\<lparr>PureVirtualFunction.name = ''area'', return_type = None\<rparr>]" "[]"
      "[\<lparr>Implementation.name = ''render'', body = []\<rparr>]"]
    validation_order [of
      "[\<lparr>PureVirtualFunction.name = ''area'', return_type = None\<rparr>]" "[]"
      "[\<lparr>Implementation.name = ''area'', body = []\<rparr>]"]
  by simp

section \<open>The cursor at the end of the input\<close>

text \<open>
  C4, as stated, fails: with the end-of-input marker as the current token, the cursor is at
  the end of the input and \<^verbatim>\<open>current()\<close> returns the marker.
\<close>

theorem current_at_end_counterexample:
  "is_end_of_input \<lparr>tokens = [tok END_OF_INPUT []], index = 0\<rparr> \<and>
   current \<lparr>tokens = [tok END_OF_INPUT []], index = 0\<rparr> = Inr (tok END_OF_INPUT [])"
  by (simp add: is_end_of_input_def current_def)

text \<open>
  C4, amended. \<^verbatim>\<open>current()\<close> returns the token at the position whenever the position is
  inside the token sequence, also when that token is the end-of-input marker. The
  operation that fails with \<open>UnexpectedEndOfInput\<close> is \<^verbatim>\<open>consume\<close>: it does so in every state at
  the end of the input, whatever kind it is asked for.
\<close>

theorem current_reads_consume_checks:
  "(index p < length (tokens p) \<longrightarrow> current p = Inr (tokens p ! index p)) \<and>
   (is_end_of_input p \<longrightarrow> consume ty p = Inl (ParserError UnexpectedEndOfInput)) \<and>
   (is_end_of_input p \<and> index p < length (tokens p) \<longrightarrow>
      (\<exists>t. current p = Inr t \<and> token_type t = END_OF_INPUT))"
  by (auto simp: current_def consume_def is_end_of_input_def)

theorem current_reads_consume_checks_witness:
  "current \<lparr>tokens = [tok END_OF_INPUT []], index = 0\<rparr> = Inr (tok END_OF_INPUT []) \<and>
   consume IDENTIFIER \<lparr>tokens = [tok END_OF_INPUT []], index = 0\<rparr>
     = Inl (ParserError UnexpectedEndOfInput) \<and>
   consume IDENTIFIER \<lparr>tokens = [tok END_OF_INPUT []], index = 1\<rparr>
     = Inl (ParserError UnexpectedEndOfInput)"
  using
    current_reads_consume_checks [of "\<lparr>tokens = [tok END_OF_INPUT []], index = 0\<rparr>" IDENTIFIER]
    current_reads_consume_checks [of "\<lparr>tokens = [tok END_OF_INPUT []], index = 1\<rparr>" IDENTIFIER]
  by (simp add: is_end_of_input_def)

lemma parse_runs_off_the_end:
  "parse [tok IDENTIFIER n, tok LEFT_PARENTHESIS l] = Inl IndexError"
proof -
  let ?ts = "[tok IDENTIFIER n, tok LEFT_PARENTHESIS l]"
  have "base_type_members_loop (at ?ts []) [] = Inl IndexError"
    by (subst base_type_members_loop.simps) simp
  then have "parse_abstract_type (at [] ?ts) = Inl IndexError"
    by (simp add: parse_abstract_type_def)
  then have "parse_loop (at [] ?ts) [] [] = Inl IndexError"
    by (subst parse_loop_step [of _ "tok IDENTIFIER n"]) simp_all
  with parse_at [of None ?ts] show ?thesis by simp
qed

text \<open>
  C10. On the empty token sequence \<^verbatim>\<open>parse\<close> fails with Python's \<open>IndexError\<close>, raised by
  the read of \<^verbatim>\<open>parser.current()\<close> that tests for a prelude; so does every read of
  \<^verbatim>\<open>current()\<close> at a position with no token, such as the read that looks for a member
  behind the opening parenthesis of a header when the tokens end there. That error is not
  the \<open>UnexpectedEndOfInput\<close> of the parser's own errors.
\<close>

theorem read_without_token_is_index_error:
  "parse [] = Inl IndexError \<and>
   (index p \<ge> length (tokens p) \<longrightarrow> current p = Inl IndexError) \<and>
   parse [tok IDENTIFIER n, tok LEFT_PARENTHESIS l] = Inl IndexError \<and>
   IndexError \<noteq> ParserError UnexpectedEndOfInput"
proof (intro conjI impI)
  show "parse [] = Inl IndexError"
    by (simp add: parse_def current_def)
  show "current p = Inl IndexError" if "index p \<ge> length (tokens p)"
    using that by (simp add: current_def)
  show "parse [tok IDENTIFIER n, tok LEFT_PARENTHESIS l] = Inl IndexError"
    by (rule parse_runs_off_the_end)
  show "IndexError \<noteq> ParserError UnexpectedEndOfInput"
    by simp
qed

theorem read_without_token_is_index_error_witness:
  "current \<lparr>tokens = [tok IDENTIFIER ''x''], index = 1\<rparr> = Inl IndexError"
  using read_without_token_is_index_error [of "\<lparr>tokens = [tok IDENTIFIER ''x''], index = 1\<rparr>"]
  by simp

section \<open>The postlude\<close>

text \<open>
  C6, as stated, fails: behind the postlude stand the end-of-input marker and then an
  identifier, a token that is not the marker, and \<^verbatim>\<open>parse\<close> succeeds. Nothing behind an
  end-of-input marker is ever read.
\<close>

theorem tokens_behind_marker_counterexample:
  "parse [tok TYPE_KEYWORD ''type'', tok IDENTIFIER ''Id'', tok STRING_LITERAL ''\"int\"'',
          tok STRING_LITERAL ''\" bye \"'', tok END_OF_INPUT [], tok IDENTIFIER ''x'']
     = Inr \<lparr>prelude = [], type_definitions = [(''Id'', ''int'')], abstract_types = [],
            postlude = ''bye''\<rparr>"
  by code_simp

text \<open>
  C6, amended. Let a file-level string literal stand behind a prelude or behind at least
  one well-formed declaration, so that it is the postlude. Then \<^verbatim>\<open>parse\<close> reads no further
  declaration: it succeeds, with the description of what stands before, exactly when
  nothing follows the postlude or the token that follows it is the end-of-input marker,
  and it fails with \<open>TrailingContentAfterPostlude\<close> exactly when a token follows the postlude
  that is not the marker, whatever the tokens are that follow.
\<close>

theorem postlude_is_last:
  assumes "\<forall>it \<in> set its. item_ok it" and "pre \<noteq> None \<or> its \<noteq> []"
  shows "parse (file_tokens kw pre its (Some l) @ rest) =
      (if rest = [] \<or> token_type (hd rest) = END_OF_INPUT
       then Inr (description_of pre its (Some l))
       else Inl (ParserError TrailingContentAfterPostlude))"
proof -
  let ?rest = "tok STRING_LITERAL l # rest"
  have r: "?rest \<noteq> []" "token_type (hd ?rest) \<noteq> PIPE"
    "pre = None \<and> its = [] \<longrightarrow> token_type (hd ?rest) \<noteq> STRING_LITERAL"
    using assms(2) by simp_all
  have eoi: "is_end_of_input (at pre' rest) \<longleftrightarrow> rest = [] \<or> token_type (hd rest) = END_OF_INPUT"
    for pre'
    by (cases rest) simp_all
  show ?thesis
    using parse_items_then [OF assms(1) r, of kw]
    by (simp add: file_tokens_def description_of_def parse_loop_postlude eoi)
qed

theorem postlude_is_last_witness:
  "parse [tok TYPE_KEYWORD ''type'', tok IDENTIFIER ''Id'', tok STRING_LITERAL ''\"int\"'',
          tok STRING_LITERAL ''\" bye \"'', tok IDENTIFIER ''x'', tok END_OF_INPUT []]
     = Inl (ParserError TrailingContentAfterPostlude) \<and>
   parse [tok TYPE_KEYWORD ''type'', tok IDENTIFIER ''Id'', tok STRING_LITERAL ''\"int\"'',
          tok STRING_LITERAL ''\" bye \"'', tok END_OF_INPUT []]
     = Inr \<lparr>prelude = [], type_definitions = [(''Id'', ''int'')], abstract_types = [],
            postlude = ''bye''\<rparr>"
  using
    postlude_is_last [of "[TypeDef ''Id'' ''\"int\"'']" None "\<lambda>_. ''type''" "''\" bye \"''"
      "[tok IDENTIFIER ''x'', tok END_OF_INPUT []]"]
    postlude_is_last [of "[TypeDef ''Id'' ''\"int\"'']" None "\<lambda>_. ''type''" "''\" bye \"''"
      "[tok END_OF_INPUT []]"]
  by (simp add: file_tokens_def description_of_def unquote_def strip_def slice1_def
                isspace_def)

section \<open>Duplicate operation declarations\<close>

text \<open>
  C3, as stated, fails: the header declares \<open>area\<close> twice and the first variant lacks its
  closing parenthesis; the error is the \<open>UnexpectedToken\<close> of the variant, since the
  declarations are only checked when the variant is constructed.
\<close>

theorem duplicate_operation_raised_early_counterexample:
  "parse [tok IDENTIFIER ''Shape'', tok LEFT_PARENTHESIS ''('',
          tok FUNCTION ''function'', tok IDENTIFIER ''area'', tok STRING_LITERAL ''\"double\"'',
          tok FUNCTION ''function'', tok IDENTIFIER ''area'', tok STRING_LITERAL ''\"double\"'',
          tok RIGHT_PARENTHESIS '')'', tok EQUALS ''='',
          tok IDENTIFIER ''Circle'', tok LEFT_PARENTHESIS ''('', tok PIPE ''|'',
          tok END_OF_INPUT []]
     = Inl (ParserError (UnexpectedToken RIGHT_PARENTHESIS PIPE ''|''))"
  by code_simp

lemma parse_abstract_type_behind_header:
  "parse_abstract_type (at pre (header_tokens kw n ms ops @ rest)) =
     (case parse_subtype (at (pre @ header_tokens kw n ms ops) rest) of
        Inl e \<Rightarrow> Inl e
      | Inr (variant_name, mems, impls, p7) \<Rightarrow>
         (case new_PolymorphicType (map op_of ops) mems impls of
            Inl e \<Rightarrow> Inl e
          | Inr polymorphic_type \<Rightarrow>
             (case sub_types_loop p7 (map op_of ops)
                     (AList.update variant_name polymorphic_type []) of
                Inl e \<Rightarrow> Inl e
              | Inr (subs, p8) \<Rightarrow>
                  Inr (n, \<lparr>sub_types = subs, AbstractType.members = map member_of ms,
                            AbstractType.pure_virtual_functions = map op_of ops\<rparr>, p8))))"
proof -
  let ?open = "[tok IDENTIFIER n, tok LEFT_PARENTHESIS (kw LEFT_PARENTHESIS)]"
  let ?close = "[tok RIGHT_PARENTHESIS (kw RIGHT_PARENTHESIS), tok EQUALS (kw EQUALS)]"
  let ?ms = "concat (map (member_tokens kw) ms)"
  let ?ops = "concat (map (op_tokens kw) ops)"
  have not_ident: "?ops @ ?close @ rest \<noteq> [] \<and>
      token_type (hd (?ops @ ?close @ rest)) \<noteq> IDENTIFIER"
  proof (cases ops)
    case Nil
    then show ?thesis by simp
  next
    case (Cons d ops')
    with op_tokens_hd [of kw d] show ?thesis by auto
  qed
  have members: "base_type_members_loop (at (pre @ ?open) (?ms @ ?ops @ ?close @ rest)) [] =
      Inr ([] @ map member_of ms, at ((pre @ ?open) @ ?ms) (?ops @ ?close @ rest))"
    using not_ident by (intro base_type_members_loop_at) simp_all
  have ops: "functions_loop (at (pre @ ?open @ ?ms) (?ops @ ?close @ rest)) [] =
      Inr ([] @ map op_of ops, at ((pre @ ?open @ ?ms) @ ?ops) (?close @ rest))"
    by (intro functions_loop_at) simp_all
  show ?thesis
    using members ops
    by (simp add: parse_abstract_type_def header_tokens_def split: sum.splits)
qed

lemma new_PolymorphicType_duplicate_operation:
  "\<not> distinct (map fst ops) \<Longrightarrow>
   new_PolymorphicType (map op_of ops) mems impls = Inl (ParserError DuplicateOperationDeclaration)"
  unfolding new_PolymorphicType_def card_set_neq_length op_of_names by simp

lemma first_variant_examples:
  "parse_subtype
     (at [tok IDENTIFIER ''Shape'', tok LEFT_PARENTHESIS ''('',
          tok FUNCTION ''function'', tok IDENTIFIER ''area'', tok STRING_LITERAL ''\"double\"'',
          tok FUNCTION ''function'', tok IDENTIFIER ''area'', tok STRING_LITERAL ''\"double\"'',
          tok RIGHT_PARENTHESIS '')'', tok EQUALS ''='']
         [tok IDENTIFIER ''Square'', tok LEFT_PARENTHESIS ''('', tok EQUALS ''='',
          tok END_OF_INPUT []])
     = Inl (ParserError (UnexpectedToken RIGHT_PARENTHESIS EQUALS ''=''))"
  "parse_subtype
     (at [tok IDENTIFIER ''Shape'', tok LEFT_PARENTHESIS ''('',
          tok FUNCTION ''function'', tok IDENTIFIER ''area'', tok STRING_LITERAL ''\"double\"'',
          tok FUNCTION ''function'', tok IDENTIFIER ''area'', tok STRING_LITERAL ''\"double\"'',
          tok RIGHT_PARENTHESIS '')'', tok EQUALS ''='']
         [tok IDENTIFIER ''Square'', tok LEFT_PARENTHESIS ''(''])
     = Inl IndexError"
  by code_simp+

text \<open>
  C3, amended. Behind any well-formed declarations, let the header of an abstract type
  declare two operations of the same name. \<^verbatim>\<open>parse\<close> runs \<^verbatim>\<open>parse_subtype\<close> on the tokens
  behind the header before it checks the declarations: when \<^verbatim>\<open>parse_subtype\<close> fails there,
  \<^verbatim>\<open>parse\<close> fails with the error of \<^verbatim>\<open>parse_subtype\<close>; when it succeeds, \<^verbatim>\<open>parse\<close> fails with
  \<open>DuplicateOperationDeclaration\<close>. In particular the tokens of any variant of the grammar
  behind the header give \<open>DuplicateOperationDeclaration\<close>, whatever the variant implements
  and whatever follows it.
\<close>

theorem duplicate_operation_after_first_variant:
  assumes "\<forall>it \<in> set its. item_ok it" and "\<not> distinct (map fst ops)"
  shows "parse (literal_tokens pre @ concat (map (file_item_tokens kw) its)
                 @ header_tokens kw n ms ops @ rest) =
      (case parse_subtype
              (at (literal_tokens pre @ concat (map (file_item_tokens kw) its)
                     @ header_tokens kw n ms ops) rest) of
         Inl e \<Rightarrow> Inl e
       | Inr r \<Rightarrow> Inl (ParserError DuplicateOperationDeclaration)) \<and>
    parse (literal_tokens pre @ concat (map (file_item_tokens kw) its)
             @ header_tokens kw n ms ops @ variant_tokens kw v @ rest)
      = Inl (ParserError DuplicateOperationDeclaration)"
proof -
  let ?before = "literal_tokens pre @ concat (map (file_item_tokens kw) its)"
  have general: "parse (?before @ header_tokens kw n ms ops @ rest') =
      (case parse_subtype (at (?before @ header_tokens kw n ms ops) rest') of
         Inl e \<Rightarrow> Inl e
       | Inr r \<Rightarrow> Inl (ParserError DuplicateOperationDeclaration))" for rest'
  proof -
    let ?rest = "header_tokens kw n ms ops @ rest'"
    let ?p = "at ?before ?rest"
    have r: "?rest \<noteq> []" "token_type (hd ?rest) \<noteq> PIPE"
      "pre = None \<and> its = [] \<longrightarrow> token_type (hd ?rest) \<noteq> STRING_LITERAL"
      by (simp_all add: header_tokens_def)
    have cur: "current ?p = Inr (tok IDENTIFIER n)" and more: "\<not> is_end_of_input ?p"
      by (simp_all add: header_tokens_def)
    have abs: "parse_abstract_type ?p =
        (case parse_subtype (at (?before @ header_tokens kw n ms ops) rest') of
           Inl e \<Rightarrow> Inl e
         | Inr r \<Rightarrow> Inl (ParserError DuplicateOperationDeclaration))"
      by (simp add: parse_abstract_type_behind_header
            new_PolymorphicType_duplicate_operation [OF assms(2)] split: sum.splits)
    have loop: "parse_loop ?p tdefs ptypes =
        (case parse_subtype (at (?before @ header_tokens kw n ms ops) rest') of
           Inl e \<Rightarrow> Inl e
         | Inr r \<Rightarrow> Inl (ParserError DuplicateOperationDeclaration))" for tdefs ptypes
      by (subst parse_loop_step [OF more cur]) (simp add: abs split: sum.splits)
    show ?thesis
      using parse_items_then [OF assms(1) r, of kw]
      by (simp add: loop split: sum.splits)
  qed
  have "parse_subtype (at (?before @ header_tokens kw n ms ops) (variant_tokens kw v @ rest)) =
      Inr (fst v, item_members (snd v), item_impls (snd v),
           at ((?before @ header_tokens kw n ms ops) @ variant_tokens kw v) rest)"
    by (rule parse_subtype_at)
  with general [of "variant_tokens kw v @ rest"] general [of rest] show ?thesis
    by (simp del: variant_tokens.simps)
qed

theorem duplicate_operation_after_first_variant_witness:
  "parse [tok IDENTIFIER ''Shape'', tok LEFT_PARENTHESIS ''('',
          tok FUNCTION ''function'', tok IDENTIFIER ''area'', tok STRING_LITERAL ''\"double\"'',
          tok FUNCTION ''function'', tok IDENTIFIER ''area'', tok STRING_LITERAL ''\"double\"'',
          tok RIGHT_PARENTHESIS '')'', tok EQUALS ''='',
          tok IDENTIFIER ''Circle'', tok LEFT_PARENTHESIS ''('',
          tok IMPLEMENT ''implement'', tok IDENTIFIER ''render'', tok STRING_LITERAL ''\"\"'',
          tok RIGHT_PARENTHESIS '')'', tok TYPE_KEYWORD ''type'']
     = Inl (ParserError DuplicateOperationDeclaration) \<and>
   parse [tok IDENTIFIER ''Shape'', tok LEFT_PARENTHESIS ''('',
          tok FUNCTION ''function'', tok IDENTIFIER ''area'', tok STRING_LITERAL ''\"double\"'',
          tok FUNCTION ''function'', tok IDENTIFIER ''area'', tok STRING_LITERAL ''\"double\"'',
          tok RIGHT_PARENTHESIS '')'', tok EQUALS ''='',
          tok IDENTIFIER ''Square'', tok LEFT_PARENTHESIS ''('', tok EQUALS ''='',
          tok END_OF_INPUT []]
     = Inl (ParserError (UnexpectedToken RIGHT_PARENTHESIS EQUALS ''='')) \<and>
   parse [tok IDENTIFIER ''Shape'', tok LEFT_PARENTHESIS ''('',
          tok FUNCTION ''function'', tok IDENTIFIER ''area'', tok STRING_LITERAL ''\"double\"'',
          tok FUNCTION ''function'', tok IDENTIFIER ''area'', tok STRING_LITERAL ''\"double\"'',
          tok RIGHT_PARENTHESIS '')'', tok EQUALS ''='',
          tok IDENTIFIER ''Square'', tok LEFT_PARENTHESIS ''('']
     = Inl IndexError"
proof -
  let ?ops = "[(''area'', ''\"double\"''), (''area'', ''\"double\"'')]"
  have ok: "\<forall>it \<in> set ([] :: file_item list). item_ok it" by simp
  have dup: "\<not> distinct (map fst ?ops)" by simp
  note inst = duplicate_operation_after_first_variant [OF ok dup, of None keyword_lexeme
      "''Shape''" "[]"]
  have a: "parse [tok IDENTIFIER ''Shape'', tok LEFT_PARENTHESIS ''('',
          tok FUNCTION ''function'', tok IDENTIFIER ''area'', tok STRING_LITERAL ''\"double\"'',
          tok FUNCTION ''function'', tok IDENTIFIER ''area'', tok STRING_LITERAL ''\"double\"'',
          tok RIGHT_PARENTHESIS '')'', tok EQUALS ''='',
          tok IDENTIFIER ''Circle'', tok LEFT_PARENTHESIS ''('',
          tok IMPLEMENT ''implement'', tok IDENTIFIER ''render'', tok STRING_LITERAL ''\"\"'',
          tok RIGHT_PARENTHESIS '')'', tok TYPE_KEYWORD ''type'']
     = Inl (ParserError DuplicateOperationDeclaration)"
    using inst [of "[tok TYPE_KEYWORD ''type'']" "(''Circle'', [ImplItem (''render'', ''\"\"'')])",
      THEN conjunct2]
    by (simp add: header_tokens_def keyword_lexeme_def)
  have b: "parse [tok IDENTIFIER ''Shape'', tok LEFT_PARENTHESIS ''('',
          tok FUNCTION ''function'', tok IDENTIFIER ''area'', tok STRING_LITERAL ''\"double\"'',
          tok FUNCTION ''function'', tok IDENTIFIER ''area'', tok STRING_LITERAL ''\"double\"'',
          tok RIGHT_PARENTHESIS '')'', tok EQUALS ''='',
          tok IDENTIFIER ''Square'', tok LEFT_PARENTHESIS ''('', tok EQUALS ''='',
          tok END_OF_INPUT []]
     = Inl (ParserError (UnexpectedToken RIGHT_PARENTHESIS EQUALS ''=''))"
    using inst [of "[tok IDENTIFIER ''Square'', tok LEFT_PARENTHESIS ''('', tok EQUALS ''='',
          tok END_OF_INPUT []]" "(''Circle'', [])", THEN conjunct1]
    by (simp add: header_tokens_def keyword_lexeme_def first_variant_examples)
  have c: "parse [tok IDENTIFIER ''Shape'', tok LEFT_PARENTHESIS ''('',
          tok FUNCTION ''function'', tok IDENTIFIER ''area'', tok STRING_LITERAL ''\"double\"'',
          tok FUNCTION ''function'', tok IDENTIFIER ''area'', tok STRING_LITERAL ''\"double\"'',
          tok RIGHT_PARENTHESIS '')'', tok EQUALS ''='',
          tok IDENTIFIER ''Square'', tok LEFT_PARENTHESIS ''('']
     = Inl IndexError"
    using inst [of "[tok IDENTIFIER ''Square'', tok LEFT_PARENTHESIS ''('']" "(''Circle'', [])",
      THEN conjunct1]
    by (simp add: header_tokens_def keyword_lexeme_def first_variant_examples)
  from a b c show ?thesis by (intro conjI)
qed

section \<open>Implementations and declared operations\<close>

text \<open>
  C1, as stated, fails in its second half: a variant that implements the undeclared
  \<open>render\<close> twice has a set of implementation names that differs from the declared one,
  and its construction fails with \<open>DuplicateImplementation\<close>, not with
  \<open>IncompleteOrExcessImplementation\<close>.
\<close>

theorem excess_implementation_error_counterexample:
  "set (map Implementation.name
          [\<lparr>Implementation.name = ''render'', body = []\<rparr>,
           \<lparr>Implementation.name = ''render'', body = []\<rparr>])
     \<noteq> set (map PureVirtualFunction.name
          [\<lparr>PureVirtualFunction.name = ''area'', return_type = None\<rparr>]) \<and>
   new_PolymorphicType
     [\<lparr>PureVirtualFunction.name = ''area'', return_type = None\<rparr>] []
     [\<lparr>Implementation.name = ''render'', body = []\<rparr>,
      \<lparr>Implementation.name = ''render'', body = []\<rparr>]
     = Inl (ParserError DuplicateImplementation)"
  by (simp add: new_PolymorphicType_def)

text \<open>
  C1, amended. In every description that \<^verbatim>\<open>parse\<close> returns, on any token sequence, every
  variant of every abstract type was built against the operation declarations of that
  abstract type, and the set of its implementation names is the set of their names. A
  variant whose set of implementation names differs fails at construction; the error is
  \<open>IncompleteOrExcessImplementation\<close> when neither the declarations nor the implementations
  repeat a name.
\<close>

theorem variants_implement_declared_operations:
  "(parse toks = Inr g \<longrightarrow>
      (\<forall>(n, a) \<in> set (abstract_types g). \<forall>(v, pt) \<in> set (sub_types a).
         PolymorphicType.pure_virtual_functions pt = AbstractType.pure_virtual_functions a \<and>
         set (map Implementation.name (implementations pt)) =
           set (map PureVirtualFunction.name (AbstractType.pure_virtual_functions a)))) \<and>
   (set (map Implementation.name impls) \<noteq> set (map PureVirtualFunction.name fs) \<longrightarrow>
      (\<exists>e. new_PolymorphicType fs ms impls = Inl (ParserError e))) \<and>
   (set (map Implementation.name impls) \<noteq> set (map PureVirtualFunction.name fs) \<and>
    distinct (map PureVirtualFunction.name fs) \<and> distinct (map Implementation.name impls) \<longrightarrow>
      new_PolymorphicType fs ms impls = Inl (ParserError IncompleteOrExcessImplementation))"
proof (intro conjI impI)
  assume "parse toks = Inr g"
  with parse_abstract_type_implements
  have "\<forall>(n, a) \<in> set (abstract_types g).
      \<forall>(v, pt) \<in> set (sub_types a). implements (AbstractType.pure_virtual_functions a) pt"
    by (rule parse_invariant)
  then show "\<forall>(n, a) \<in> set (abstract_types g). \<forall>(v, pt) \<in> set (sub_types a).
      PolymorphicType.pure_virtual_functions pt = AbstractType.pure_virtual_functions a \<and>
      set (map Implementation.name (implementations pt)) =
        set (map PureVirtualFunction.name (AbstractType.pure_virtual_functions a))"
    by (fastforce simp: implements_def)
next
  assume "set (map Implementation.name impls) \<noteq> set (map PureVirtualFunction.name fs)"
  then show "\<exists>e. new_PolymorphicType fs ms impls = Inl (ParserError e)"
    unfolding new_PolymorphicType_def by auto
next
  assume "set (map Implementation.name impls) \<noteq> set (map PureVirtualFunction.name fs) \<and>
    distinct (map PureVirtualFunction.name fs) \<and> distinct (map Implementation.name impls)"
  then show "new_PolymorphicType fs ms impls = Inl (ParserError IncompleteOrExcessImplementation)"
    unfolding new_PolymorphicType_def card_set_neq_length by auto
qed

theorem variants_implement_declared_operations_witness:
  "parse example_tokens = Inr example_description \<and>
   (''Shape'', example_shape) \<in> set (abstract_types example_description) \<and>
   (''Circle'', example_circle) \<in> set (sub_types example_shape) \<and>
   PolymorphicType.pure_virtual_functions example_circle =
     AbstractType.pure_virtual_functions example_shape \<and>
   set (map Implementation.name (implementations example_circle)) =
     set (map PureVirtualFunction.name (AbstractType.pure_virtual_functions example_shape)) \<and>
   new_PolymorphicType [example_area] [] [\<lparr>Implementation.name = ''render'', body = []\<rparr>]
     = Inl (ParserError IncompleteOrExcessImplementation)"
  using parse_example
    variants_implement_declared_operations
      [of example_tokens example_description
          "[\<lparr>Implementation.name = ''render'', body = []\<rparr>]" "[example_area]" "[]"]
  by (simp add: example_description_def example_shape_def example_area_def)

section \<open>The text of string literals\<close>

lemma slice1_shape:
  "(2 \<le> length l \<longrightarrow> l = hd l # slice1 l @ [last l]) \<and> (length l < 2 \<longrightarrow> slice1 l = [])"
  by (cases l) (auto simp: slice1_def)

lemma rev_split_while:
  "xs = rev (dropWhile P (rev xs)) @ rev (takeWhile P (rev xs))"
proof -
  have "rev (takeWhile P (rev xs) @ dropWhile P (rev xs)) = rev (rev xs)"
    by (simp only: takeWhile_dropWhile_id)
  then show ?thesis by (simp only: rev_append rev_rev_ident)
qed

lemma strip_shape:
  "\<exists>a b. s = a @ strip s @ b \<and> (\<forall>c \<in> set a. isspace c) \<and> (\<forall>c \<in> set b. isspace c)"
proof -
  let ?m = "dropWhile isspace s"
  let ?a = "takeWhile isspace s"
  let ?b = "rev (takeWhile isspace (rev ?m))"
  have m: "?m = strip s @ ?b"
    unfolding strip_def by (rule rev_split_while)
  have "s = ?a @ ?m" by simp
  with m have "s = ?a @ strip s @ ?b" by simp
  moreover have "\<forall>c \<in> set ?a. isspace c" by (auto dest: set_takeWhileD)
  moreover have "\<forall>c \<in> set ?b. isspace c" by (auto dest: set_takeWhileD)
  ultimately show ?thesis by blast
qed

lemma strip_ends:
  assumes "strip s \<noteq> []"
  shows "\<not> isspace (hd (strip s)) \<and> \<not> isspace (last (strip s))"
proof -
  let ?m = "dropWhile isspace s"
  let ?d = "dropWhile isspace (rev ?m)"
  from assms have d: "?d \<noteq> []" by (simp add: strip_def)
  then have "\<not> isspace (hd ?d)" by (rule hd_dropWhile)
  then have last: "\<not> isspace (last (strip s))"
    using d by (simp add: strip_def last_rev)
  have m: "?m = strip s @ rev (takeWhile isspace (rev ?m))"
    unfolding strip_def by (rule rev_split_while)
  have "?m \<noteq> []"
  proof
    assume e: "?m = []"
    have "strip s = []" unfolding strip_def e by simp
    with assms show False by contradiction
  qed
  then have "\<not> isspace (hd ?m)" by (rule hd_dropWhile)
  moreover from m assms have "hd ?m = hd (strip s)" by (metis hd_append2)
  ultimately show ?thesis using last by simp
qed

lemma parse_pure_virtual_function_return_type:
  "parse_pure_virtual_function p = Inr (f, p') \<Longrightarrow> return_type f \<noteq> Some []"
  by (auto simp: parse_pure_virtual_function_def Let_def split: sum.splits if_splits)

lemma functions_loop_return_types:
  "functions_loop p acc = Inr (fs, p') \<Longrightarrow>
   \<forall>f \<in> set acc. return_type f \<noteq> Some [] \<Longrightarrow> \<forall>f \<in> set fs. return_type f \<noteq> Some []"
proof (induction p acc rule: functions_loop.induct)
  case (1 p acc)
  from "1.prems"(1) obtain t where cur: "current p = Inr t"
    by (subst (asm) functions_loop.simps) (simp split: sum.splits)
  show ?case
  proof (cases "token_type t = FUNCTION")
    case True
    with "1.prems"(1) cur obtain f p1 where pf: "parse_pure_virtual_function p = Inr (f, p1)"
      and rec: "functions_loop p1 (acc @ [f]) = Inr (fs, p')"
      by (auto simp: functions_loop_step [OF cur] split: sum.splits)
    have "\<forall>f \<in> set (acc @ [f]). return_type f \<noteq> Some []"
      using "1.prems"(2) parse_pure_virtual_function_return_type [OF pf] by simp
    with "1.IH" [OF cur True pf refl rec] show ?thesis .
  next
    case False
    with "1.prems" cur show ?thesis
      by (simp add: functions_loop_step [OF cur])
  qed
qed

lemma parse_abstract_type_return_types:
  assumes "parse_abstract_type p = Inr (n, a, p')"
  shows "\<forall>f \<in> set (AbstractType.pure_virtual_functions a). return_type f \<noteq> Some []"
proof -
  from assms obtain p3 fs p4 where loop: "functions_loop p3 [] = Inr (fs, p4)"
    and a: "AbstractType.pure_virtual_functions a = fs"
    by (auto simp: parse_abstract_type_def split: sum.splits)
  from functions_loop_return_types [OF loop] a show ?thesis by simp
qed

text \<open>
  C5. Each production that consumes a string literal stores \<open>strip (slice1 l)\<close> for the raw
  lexeme \<open>l\<close>: the type of a member, the return type of an operation, the body of an
  implementation, the body of a type definition, the prelude and the postlude. On the
  tokens of every well-formed file \<^verbatim>\<open>parse\<close> succeeds and returns the description in which
  each of these texts is \<open>strip (slice1 l)\<close> of its literal. \<open>slice1\<close> removes exactly the first
  and the last character; \<open>strip\<close> removes whitespace, and nothing else, at both ends, up to
  the first and the last character that is not whitespace. A return type that is empty
  after that is stored as \<open>None\<close>, and no description that \<^verbatim>\<open>parse\<close> returns, on any token
  sequence, holds the empty string as a return type.
\<close>

theorem string_literals_are_unquoted:
  "parse_data_member (at pre (member_tokens kw (n, moved, l) @ rest)) =
     Inr (\<lparr>Member.name = n, by_move = moved, member_type = strip (slice1 l)\<rparr>,
          at (pre @ member_tokens kw (n, moved, l)) rest) \<and>
   parse_pure_virtual_function (at pre (op_tokens kw (n, l) @ rest)) =
     Inr (\<lparr>PureVirtualFunction.name = n,
           return_type = (if strip (slice1 l) = [] then None else Some (strip (slice1 l)))\<rparr>,
          at (pre @ op_tokens kw (n, l)) rest) \<and>
   parse_implementation (at pre (impl_tokens kw (n, l) @ rest)) =
     Inr (\<lparr>Implementation.name = n, body = strip (slice1 l)\<rparr>,
          at (pre @ impl_tokens kw (n, l)) rest) \<and>
   parse_type_definition (at pre (file_item_tokens kw (TypeDef n l) @ rest)) =
     Inr ((n, strip (slice1 l)), at (pre @ file_item_tokens kw (TypeDef n l)) rest) \<and>
   parse (tok STRING_LITERAL l # rest) =
     (case parse_loop (at [tok STRING_LITERAL l] rest) [] [] of
        Inl e \<Rightarrow> Inl e
      | Inr (tdefs, ptypes, post, p2) \<Rightarrow>
          if \<not> is_end_of_input p2 then Inl (ParserError TrailingContentAfterPostlude)
          else Inr \<lparr>prelude = strip (slice1 l), type_definitions = tdefs,
                    abstract_types = ptypes, postlude = post\<rparr>) \<and>
   parse_loop (at pre (tok STRING_LITERAL l # rest)) tdefs ptypes =
     Inr (tdefs, ptypes, strip (slice1 l), at (pre @ [tok STRING_LITERAL l]) rest) \<and>
   ((\<forall>it \<in> set its. item_ok it) \<and> token_type e = END_OF_INPUT \<and>
    (prelit = None \<and> its = [] \<longrightarrow> postlit = None) \<longrightarrow>
      parse (file_tokens kw prelit its postlit @ e # junk) =
        Inr \<lparr>prelude = (case prelit of None \<Rightarrow> [] | Some l \<Rightarrow> strip (slice1 l)),
             type_definitions = typedef_entries its,
             abstract_types = assign_all [] (abstract_entries its),
             postlude = (case postlit of None \<Rightarrow> [] | Some l \<Rightarrow> strip (slice1 l))\<rparr>) \<and>
   typedef_entries (TypeDef n l # its) = (n, strip (slice1 l)) # typedef_entries its \<and>
   member_of (n, moved, l) =
     \<lparr>Member.name = n, by_move = moved, member_type = strip (slice1 l)\<rparr> \<and>
   op_of (n, l) =
     \<lparr>PureVirtualFunction.name = n,
      return_type = (if strip (slice1 l) = [] then None else Some (strip (slice1 l)))\<rparr> \<and>
   impl_of (n, l) = \<lparr>Implementation.name = n, body = strip (slice1 l)\<rparr> \<and>
   (parse toks = Inr g \<longrightarrow>
      (\<forall>(n, a) \<in> set (abstract_types g).
         \<forall>f \<in> set (AbstractType.pure_virtual_functions a). return_type f \<noteq> Some [])) \<and>
   (2 \<le> length l \<longrightarrow> l = hd l # slice1 l @ [last l]) \<and> (length l < 2 \<longrightarrow> slice1 l = []) \<and>
   (\<exists>a b. s = a @ strip s @ b \<and> (\<forall>c \<in> set a. isspace c) \<and> (\<forall>c \<in> set b. isspace c)) \<and>
   (strip s \<noteq> [] \<longrightarrow> \<not> isspace (hd (strip s)) \<and> \<not> isspace (last (strip s)))"
proof -
  have member: "parse_data_member (at pre (member_tokens kw (n, moved, l) @ rest)) =
     Inr (\<lparr>Member.name = n, by_move = moved, member_type = strip (slice1 l)\<rparr>,
          at (pre @ member_tokens kw (n, moved, l)) rest)"
    using parse_data_member_at [of pre kw "(n, moved, l)" rest] by (simp add: unquote_def)
  have op: "parse_pure_virtual_function (at pre (op_tokens kw (n, l) @ rest)) =
     Inr (\<lparr>PureVirtualFunction.name = n,
           return_type = (if strip (slice1 l) = [] then None else Some (strip (slice1 l)))\<rparr>,
          at (pre @ op_tokens kw (n, l)) rest)"
    using parse_pure_virtual_function_at [of pre kw "(n, l)" rest] by (simp add: unquote_def)
  have impl: "parse_implementation (at pre (impl_tokens kw (n, l) @ rest)) =
     Inr (\<lparr>Implementation.name = n, body = strip (slice1 l)\<rparr>,
          at (pre @ impl_tokens kw (n, l)) rest)"
    using parse_implementation_at [of pre kw "(n, l)" rest] by (simp add: unquote_def)
  have tdef: "parse_type_definition (at pre (file_item_tokens kw (TypeDef n l) @ rest)) =
     Inr ((n, strip (slice1 l)), at (pre @ file_item_tokens kw (TypeDef n l)) rest)"
    using parse_type_definition_at [of pre kw n l rest] by (simp add: unquote_def)
  have prel: "parse (tok STRING_LITERAL l # rest) =
     (case parse_loop (at [tok STRING_LITERAL l] rest) [] [] of
        Inl e \<Rightarrow> Inl e
      | Inr (tdefs, ptypes, post, p2) \<Rightarrow>
          if \<not> is_end_of_input p2 then Inl (ParserError TrailingContentAfterPostlude)
          else Inr \<lparr>prelude = strip (slice1 l), type_definitions = tdefs,
                    abstract_types = ptypes, postlude = post\<rparr>)"
    using parse_at [of "Some l" rest] by (simp add: unquote_def split: sum.splits)
  have post: "parse_loop (at pre (tok STRING_LITERAL l # rest)) tdefs ptypes =
     Inr (tdefs, ptypes, strip (slice1 l), at (pre @ [tok STRING_LITERAL l]) rest)"
    by (simp add: parse_loop_postlude unquote_def)
  have lit: "literal_text x = (case x of None \<Rightarrow> [] | Some l \<Rightarrow> strip (slice1 l))" for x
    by (cases x) (simp_all add: unquote_def)
  have whole: "parse (file_tokens kw prelit its postlit @ e # junk) =
        Inr \<lparr>prelude = (case prelit of None \<Rightarrow> [] | Some l \<Rightarrow> strip (slice1 l)),
             type_definitions = typedef_entries its,
             abstract_types = assign_all [] (abstract_entries its),
             postlude = (case postlit of None \<Rightarrow> [] | Some l \<Rightarrow> strip (slice1 l))\<rparr>"
    if "(\<forall>it \<in> set its. item_ok it) \<and> token_type e = END_OF_INPUT \<and>
        (prelit = None \<and> its = [] \<longrightarrow> postlit = None)"
    using that parse_file [of its e prelit postlit kw junk]
    by (simp add: description_of_def lit)
  have defs: "typedef_entries (TypeDef n l # its) = (n, strip (slice1 l)) # typedef_entries its"
    "member_of (n, moved, l) =
       \<lparr>Member.name = n, by_move = moved, member_type = strip (slice1 l)\<rparr>"
    "op_of (n, l) =
       \<lparr>PureVirtualFunction.name = n,
        return_type = (if strip (slice1 l) = [] then None else Some (strip (slice1 l)))\<rparr>"
    "impl_of (n, l) = \<lparr>Implementation.name = n, body = strip (slice1 l)\<rparr>"
    by (simp_all add: unquote_def)
  have ret: "\<forall>(n, a) \<in> set (abstract_types g).
         \<forall>f \<in> set (AbstractType.pure_virtual_functions a). return_type f \<noteq> Some []"
    if "parse toks = Inr g"
    using parse_abstract_type_return_types that by (rule parse_invariant)
  from member op impl tdef prel post whole defs ret
    slice1_shape [of l] strip_shape [of s] strip_ends [of s]
  show ?thesis by (intro conjI impI) (assumption | blast)+
qed

theorem string_literals_are_unquoted_witness:
  "parse [tok STRING_LITERAL ''\"  // prelude  \"'',
          tok TYPE_KEYWORD ''type'', tok IDENTIFIER ''Id'', tok STRING_LITERAL ''\" int \"'',
          tok IDENTIFIER ''Shape'', tok LEFT_PARENTHESIS ''('',
            tok IDENTIFIER ''label'', tok BY_MOVE ''by_move'',
              tok STRING_LITERAL ''\"  std::string  \"'',
            tok FUNCTION ''function'', tok IDENTIFIER ''area'', tok STRING_LITERAL ''\" double \"'',
            tok FUNCTION ''function'', tok IDENTIFIER ''draw'', tok STRING_LITERAL ''\"   \"'',
          tok RIGHT_PARENTHESIS '')'', tok EQUALS ''='',
          tok IDENTIFIER ''Circle'', tok LEFT_PARENTHESIS ''('',
            tok IDENTIFIER ''radius'', tok STRING_LITERAL ''\"  int x;  \"'',
            tok IMPLEMENT ''implement'', tok IDENTIFIER ''area'',
              tok STRING_LITERAL ''\" return 3; \"'',
            tok IMPLEMENT ''implement'', tok IDENTIFIER ''draw'', tok STRING_LITERAL ''\"\"'',
          tok RIGHT_PARENTHESIS '')'',
          tok STRING_LITERAL ''\" // end \"'',
          tok END_OF_INPUT []]
     = Inr \<lparr>prelude = ''// prelude'',
            type_definitions = [(''Id'', ''int'')],
            abstract_types =
              [(''Shape'',
                \<lparr>sub_types =
                   [(''Circle'',
                     \<lparr>PolymorphicType.pure_virtual_functions =
                        [\<lparr>PureVirtualFunction.name = ''area'', return_type = Some ''double''\<rparr>,
                         \<lparr>PureVirtualFunction.name = ''draw'', return_type = None\<rparr>],
                      PolymorphicType.members =
                        [\<lparr>Member.name = ''radius'', by_move = False, member_type = ''int x;''\<rparr>],
                      implementations =
                        [\<lparr>Implementation.name = ''area'', body = ''return 3;''\<rparr>,
                         \<lparr>Implementation.name = ''draw'', body = []\<rparr>]\<rparr>)],
                 AbstractType.members =
                   [\<lparr>Member.name = ''label'', by_move = True, member_type = ''std::string''\<rparr>],
                 AbstractType.pure_virtual_functions =
                   [\<lparr>PureVirtualFunction.name = ''area'', return_type = Some ''double''\<rparr>,
                    \<lparr>PureVirtualFunction.name = ''draw'', return_type = None\<rparr>]\<rparr>)],
            postlude = ''// end''\<rparr>"
proof -
  let ?its = "[TypeDef ''Id'' ''\" int \"'',
     AbstractTypeDef ''Shape'' [(''label'', True, ''\"  std::string  \"'')]
       [(''area'', ''\" double \"''), (''draw'', ''\"   \"'')]
       (''Circle'', [MemberItem (''radius'', False, ''\"  int x;  \"''),
                     ImplItem (''area'', ''\" return 3; \"''), ImplItem (''draw'', ''\"\"'')])
       []]"
  have ok: "(\<forall>it \<in> set ?its. item_ok it) \<and> token_type (tok END_OF_INPUT []) = END_OF_INPUT \<and>
      (Some ''\"  // prelude  \"'' = None \<and> ?its = [] \<longrightarrow> Some ''\" // end \"'' = None)"
    by (auto simp: variant_ok_def impl_names_def)
  note inst = string_literals_are_unquoted [where its = ?its and e = "tok END_OF_INPUT []"
      and prelit = "Some ''\"  // prelude  \"''" and postlit = "Some ''\" // end \"''"
      and kw = keyword_lexeme and junk = "[]" and n = "''Id''" and l = "''\" int \"''"
      and moved = False and pre = "[]" and rest = "[]" and tdefs = "[]" and ptypes = "[]"
      and toks = "[]" and g = example_description and s = "[]"]
  from inst ok have "parse (file_tokens keyword_lexeme (Some ''\"  // prelude  \"'') ?its
        (Some ''\" // end \"'') @ [tok END_OF_INPUT []]) =
      Inr \<lparr>prelude = (case Some ''\"  // prelude  \"'' of None \<Rightarrow> []
                          | Some l \<Rightarrow> strip (slice1 l)),
           type_definitions = typedef_entries ?its,
           abstract_types = assign_all [] (abstract_entries ?its),
           postlude = (case Some ''\" // end \"'' of None \<Rightarrow> []
                       | Some l \<Rightarrow> strip (slice1 l))\<rparr>"
    by blast
  then show ?thesis
    by (simp add: file_tokens_def header_tokens_def piped_tokens_def keyword_lexeme_def
                  abstract_of_def variant_entry_def variant_of_def
                  unquote_def strip_def slice1_def isspace_def)
qed

section \<open>Termination\<close>

lemma advances_chain:
  assumes "\<forall>i<k. advances (ps i) (ps (Suc i))"
  shows "k \<le> length (tokens (ps 0)) - index (ps 0)"
proof (cases k)
  case 0
  then show ?thesis by simp
next
  case (Suc k')
  have inv: "tokens (ps j) = tokens (ps 0) \<and> index (ps 0) + j \<le> index (ps j)"
    if "j \<le> k" for j
    using that
  proof (induction j)
    case 0
    show ?case by simp
  next
    case (Suc j)
    then have "advances (ps j) (ps (Suc j))" and "j \<le> k" using assms by simp_all
    with Suc.IH show ?case by (simp add: advances_def)
  qed
  from assms Suc have "advances (ps k') (ps k)" by simp
  moreover from inv [of k'] Suc have "tokens (ps k') = tokens (ps 0)" by simp
  ultimately have "index (ps k) \<le> length (tokens (ps 0))" by (simp add: advances_def)
  with inv [of k] show ?thesis by linarith
qed

text \<open>
  C9. \<^verbatim>\<open>parse\<close> is a total function: each of its five loops is a recursive function whose
  termination is proved above with the number of tokens behind the cursor as the measure.
  The body of every loop, when it succeeds, leaves the cursor on the same token sequence,
  strictly further, and at most one position past the last token: the member and the
  operation loop of a header, the loop over the body of a variant, the loop over the
  variants behind a pipe, and the two consuming branches of the dispatch loop. So the
  number of tokens behind the cursor, which is the length of the input at the start, falls
  with every iteration, and a run of \<open>k\<close> iterations from a cursor needs at least \<open>k\<close> tokens
  behind that cursor.
\<close>

theorem every_loop_advances:
  "(parse_data_member p = Inr (m, p') \<longrightarrow> advances p p') \<and>
   (parse_pure_virtual_function p = Inr (f, p') \<longrightarrow> advances p p') \<and>
   (parse_implementation p = Inr (i, p') \<longrightarrow> advances p p') \<and>
   (current p = Inr t \<and> parse_subtype (parser_next p) = Inr (v, ms, ims, p') \<longrightarrow> advances p p') \<and>
   (\<not> is_end_of_input p \<and> parse_type_definition p = Inr (d, p') \<longrightarrow> advances p p') \<and>
   (parse_abstract_type p = Inr (n, a, p') \<longrightarrow> advances p p') \<and>
   (advances p p' \<longrightarrow>
      tokens p' = tokens p \<and> index p < index p' \<and> index p' \<le> length (tokens p) \<and>
      length (tokens p') - index p' < length (tokens p) - index p) \<and>
   ((\<forall>i<k. advances (ps i) (ps (Suc i))) \<longrightarrow> k \<le> length (tokens (ps 0)) - index (ps 0)) \<and>
   ((\<exists>g. parse toks = Inr g) \<or> (\<exists>e. parse toks = Inl e))"
proof -
  have variant: "advances p p'"
    if "current p = Inr t" "parse_subtype (parser_next p) = Inr (v, ms, ims, p')"
    using that
    by (blast intro: advances_trans parser_next_advances current_in_range
              dest: parse_subtype_advances)
  have tdef: "advances p p'" if "\<not> is_end_of_input p" "parse_type_definition p = Inr (d, p')"
    using that by (auto intro: parse_type_definition_advances simp: is_end_of_input_def)
  have total: "(\<exists>g. parse toks = Inr g) \<or> (\<exists>e. parse toks = Inl e)"
    by (cases "parse toks") auto
  have adv: "tokens p' = tokens p \<and> index p < index p' \<and> index p' \<le> length (tokens p) \<and>
      length (tokens p') - index p' < length (tokens p) - index p" if "advances p p'"
    using that advances_measure [OF that] by (simp add: advances_def)
  from variant tdef total adv advances_chain [of k ps] show ?thesis
    by (blast intro: parse_data_member_advances parse_pure_virtual_function_advances
                     parse_implementation_advances parse_abstract_type_advances)
qed

theorem every_loop_advances_witness:
  "advances (at [] [tok IDENTIFIER ''x'', tok STRING_LITERAL ''\"int\"''])
            (at [tok IDENTIFIER ''x'', tok STRING_LITERAL ''\"int\"''] []) \<and>
   advances (at [] [tok FUNCTION ''function'', tok IDENTIFIER ''f'', tok STRING_LITERAL ''\"int\"''])
            (at [tok FUNCTION ''function'', tok IDENTIFIER ''f'', tok STRING_LITERAL ''\"int\"''] []) \<and>
   advances (at [] [tok IMPLEMENT ''implement'', tok IDENTIFIER ''f'', tok STRING_LITERAL ''\"1\"''])
            (at [tok IMPLEMENT ''implement'', tok IDENTIFIER ''f'', tok STRING_LITERAL ''\"1\"''] []) \<and>
   advances (at [] [tok PIPE ''|'', tok IDENTIFIER ''A'', tok LEFT_PARENTHESIS ''('',
                    tok RIGHT_PARENTHESIS '')'', tok END_OF_INPUT []])
            (at [tok PIPE ''|'', tok IDENTIFIER ''A'', tok LEFT_PARENTHESIS ''('',
                 tok RIGHT_PARENTHESIS '')''] [tok END_OF_INPUT []]) \<and>
   advances (at [] [tok TYPE_KEYWORD ''type'', tok IDENTIFIER ''Id'', tok STRING_LITERAL ''\"int\"''])
            (at [tok TYPE_KEYWORD ''type'', tok IDENTIFIER ''Id'', tok STRING_LITERAL ''\"int\"''] []) \<and>
   advances (at [] [tok IDENTIFIER ''T'', tok LEFT_PARENTHESIS ''('',
                    tok RIGHT_PARENTHESIS '')'', tok EQUALS ''='', tok IDENTIFIER ''A'',
                    tok LEFT_PARENTHESIS ''('', tok RIGHT_PARENTHESIS '')'', tok END_OF_INPUT []])
            (at [tok IDENTIFIER ''T'', tok LEFT_PARENTHESIS ''('',
                 tok RIGHT_PARENTHESIS '')'', tok EQUALS ''='', tok IDENTIFIER ''A'',
                 tok LEFT_PARENTHESIS ''('', tok RIGHT_PARENTHESIS '')''] [tok END_OF_INPUT []]) \<and>
   index (at [] [tok IDENTIFIER ''x'', tok STRING_LITERAL ''\"int\"''])
     < index (at [tok IDENTIFIER ''x'', tok STRING_LITERAL ''\"int\"''] []) \<and>
   (1 :: nat) \<le> length (tokens (at [] [tok IDENTIFIER ''x'', tok STRING_LITERAL ''\"int\"'']))
     - index (at [] [tok IDENTIFIER ''x'', tok STRING_LITERAL ''\"int\"''])"
proof -
  let ?kw = "\<lambda>k :: TokenType. if k = FUNCTION then ''function'' else if k = IMPLEMENT
    then ''implement'' else ''type''"
  have member: "parse_data_member (at [] [tok IDENTIFIER ''x'', tok STRING_LITERAL ''\"int\"'']) =
      Inr (member_of (''x'', False, ''\"int\"''),
           at [tok IDENTIFIER ''x'', tok STRING_LITERAL ''\"int\"''] [])"
    using parse_data_member_at [of "[]" ?kw "(''x'', False, ''\"int\"'')" "[]"] by simp
  have op: "parse_pure_virtual_function
        (at [] [tok FUNCTION ''function'', tok IDENTIFIER ''f'', tok STRING_LITERAL ''\"int\"'']) =
      Inr (op_of (''f'', ''\"int\"''),
           at [tok FUNCTION ''function'', tok IDENTIFIER ''f'', tok STRING_LITERAL ''\"int\"''] [])"
    using parse_pure_virtual_function_at [of "[]" ?kw "(''f'', ''\"int\"'')" "[]"] by simp
  have impl: "parse_implementation
        (at [] [tok IMPLEMENT ''implement'', tok IDENTIFIER ''f'', tok STRING_LITERAL ''\"1\"'']) =
      Inr (impl_of (''f'', ''\"1\"''),
           at [tok IMPLEMENT ''implement'', tok IDENTIFIER ''f'', tok STRING_LITERAL ''\"1\"''] [])"
    using parse_implementation_at [of "[]" ?kw "(''f'', ''\"1\"'')" "[]"] by simp
  have tdef: "parse_type_definition
        (at [] [tok TYPE_KEYWORD ''type'', tok IDENTIFIER ''Id'', tok STRING_LITERAL ''\"int\"'']) =
      Inr ((''Id'', unquote ''\"int\"''),
           at [tok TYPE_KEYWORD ''type'', tok IDENTIFIER ''Id'', tok STRING_LITERAL ''\"int\"''] [])"
    using parse_type_definition_at [of "[]" ?kw "''Id''" "''\"int\"''" "[]"] by simp
  have pipe: "current (at [] [tok PIPE ''|'', tok IDENTIFIER ''A'', tok LEFT_PARENTHESIS ''('',
      tok RIGHT_PARENTHESIS '')'', tok END_OF_INPUT []]) = Inr (tok PIPE ''|'')"
    by simp
  have more: "\<not> is_end_of_input
      (at [] [tok TYPE_KEYWORD ''type'', tok IDENTIFIER ''Id'', tok STRING_LITERAL ''\"int\"''])"
    by simp
  note all = every_loop_advances [THEN conjunct1, rule_format, OF member]
    every_loop_advances [THEN conjunct2, THEN conjunct1, rule_format, OF op]
    every_loop_advances [THEN conjunct2, THEN conjunct2, THEN conjunct1, rule_format, OF impl]
    every_loop_advances [THEN conjunct2, THEN conjunct2, THEN conjunct2, THEN conjunct1,
      rule_format, OF conjI [OF pipe advance_examples(1)]]
    every_loop_advances [THEN conjunct2, THEN conjunct2, THEN conjunct2, THEN conjunct2,
      THEN conjunct1, rule_format, OF conjI [OF more tdef]]
    every_loop_advances [THEN conjunct2, THEN conjunct2, THEN conjunct2, THEN conjunct2,
      THEN conjunct2, THEN conjunct1, rule_format, OF advance_examples(2)]
  have "index (at [] [tok IDENTIFIER ''x'', tok STRING_LITERAL ''\"int\"''])
      < index (at [tok IDENTIFIER ''x'', tok STRING_LITERAL ''\"int\"''] [])"
    using every_loop_advances [THEN conjunct2, THEN conjunct2, THEN conjunct2, THEN conjunct2,
      THEN conjunct2, THEN conjunct2, THEN conjunct1, rule_format, OF all(1)]
    by (rule conjunct2 [THEN conjunct1])
  moreover have "(1 :: nat) \<le>
      length (tokens (at [] [tok IDENTIFIER ''x'', tok STRING_LITERAL ''\"int\"'']))
      - index (at [] [tok IDENTIFIER ''x'', tok STRING_LITERAL ''\"int\"''])"
    using all(1)
      every_loop_advances [where k = 1 and ps = "\<lambda>i. if i = 0
          then at [] [tok IDENTIFIER ''x'', tok STRING_LITERAL ''\"int\"'']
          else at [tok IDENTIFIER ''x'', tok STRING_LITERAL ''\"int\"''] []",
        THEN conjunct2, THEN conjunct2, THEN conjunct2, THEN conjunct2,
        THEN conjunct2, THEN conjunct2, THEN conjunct2, THEN conjunct1]
    by simp
  ultimately show ?thesis
    using all by (intro conjI)
qed

section \<open>Dictionaries\<close>

text \<open>
  \<open>keep_first xs\<close> lists the elements of \<open>xs\<close> in the order of their first occurrence.
\<close>

fun keep_first :: "'a list \<Rightarrow> 'a list" where
  "keep_first [] = []"
| "keep_first (x # xs) = x # removeAll x (keep_first xs)"

lemma removeAll_commute: "removeAll a (removeAll b xs) = removeAll b (removeAll a xs)"
  by (induction xs) auto

lemma removeAll_idem: "removeAll a (removeAll a xs) = removeAll a xs"
  by (induction xs) auto

lemma removeAll_keep_first: "removeAll a (keep_first zs) = keep_first (removeAll a zs)"
proof (induction zs)
  case Nil
  show ?case by simp
next
  case (Cons z zs)
  show ?case
  proof (cases "z = a")
    case True
    have "removeAll a (keep_first (z # zs)) = removeAll a (keep_first zs)"
      using True by (simp add: removeAll_idem)
    also have "\<dots> = keep_first (removeAll a zs)" by (rule Cons.IH)
    also have "\<dots> = keep_first (removeAll a (z # zs))" using True by simp
    finally show ?thesis .
  next
    case False
    have "removeAll a (keep_first (z # zs)) = z # removeAll a (removeAll z (keep_first zs))"
      using False by simp
    also have "\<dots> = z # removeAll z (removeAll a (keep_first zs))"
      by (simp add: removeAll_commute)
    also have "\<dots> = z # removeAll z (keep_first (removeAll a zs))"
      by (simp only: Cons.IH)
    also have "\<dots> = keep_first (removeAll a (z # zs))"
      using False by simp
    finally show ?thesis .
  qed
qed

lemma keep_first_append_dup:
  "x \<in> set xs \<Longrightarrow> keep_first (xs @ x # ys) = keep_first (xs @ ys)"
proof (induction xs)
  case Nil
  then show ?case by simp
next
  case (Cons a xs)
  show ?case
  proof (cases "x \<in> set xs")
    case True
    with Cons.IH show ?thesis by simp
  next
    case False
    with Cons.prems have "x = a" by simp
    then show ?thesis by (simp add: removeAll_keep_first)
  qed
qed

lemma set_keep_first: "set (keep_first xs) = set xs"
  by (induction xs) auto

lemma distinct_keep_first: "distinct (keep_first xs)"
  by (induction xs) (auto simp: distinct_removeAll)

lemma keep_first_distinct: "distinct xs \<Longrightarrow> keep_first xs = xs"
  by (induction xs) (auto simp: set_keep_first)

lemma assign_all_keys:
  "distinct (map fst d) \<Longrightarrow>
   map fst (assign_all d kvs) = keep_first (map fst d @ map fst kvs)"
proof (induction kvs arbitrary: d)
  case Nil
  then show ?case by (simp add: keep_first_distinct)
next
  case (Cons kv kvs)
  obtain k v where kv: "kv = (k, v)" by (cases kv)
  have "map fst (assign_all d (kv # kvs)) =
      keep_first (map fst (AList.update k v d) @ map fst kvs)"
    using Cons.prems by (simp add: kv Cons.IH distinct_update)
  also have "\<dots> = keep_first (map fst d @ k # map fst kvs)"
    by (simp add: update_keys keep_first_append_dup)
  finally show ?case by (simp add: kv)
qed

lemma assign_all_distinct:
  "distinct (map fst d) \<Longrightarrow> distinct (map fst (assign_all d kvs))"
  by (induction kvs arbitrary: d) (auto simp: distinct_update)

lemma assign_all_map_of: "map_of (assign_all d kvs) = map_of (rev kvs @ d)"
proof (induction kvs arbitrary: d)
  case Nil
  show ?case by simp
next
  case (Cons kv kvs)
  obtain k v where kv: "kv = (k, v)" by (cases kv)
  have "map_of (assign_all d (kv # kvs)) = map_of (rev kvs @ AList.update k v d)"
    by (simp add: kv Cons.IH)
  also have "\<dots> = map_of (rev kvs @ (k, v) # d)"
    by (simp add: map_of_append update_conv')
  finally show ?case by (simp add: kv)
qed

lemma update_fresh: "k \<notin> fst ` set al \<Longrightarrow> AList.update k v al = al @ [(k, v)]"
  by (induction al) auto

lemma assign_all_fresh: "distinct (map fst (d @ kvs)) \<Longrightarrow> assign_all d kvs = d @ kvs"
proof (induction kvs arbitrary: d)
  case Nil
  show ?case by simp
next
  case (Cons kv kvs)
  obtain k v where kv: "kv = (k, v)" by (cases kv)
  from Cons.prems have fresh: "k \<notin> fst ` set d" and d: "distinct (map fst ((d @ [(k, v)]) @ kvs))"
    by (auto simp: kv)
  from Cons.IH [OF d] show ?case
    by (simp add: kv update_fresh [OF fresh])
qed

lemma set_assign_all: "set (assign_all d kvs) \<subseteq> set d \<union> set kvs"
proof (induction kvs arbitrary: d)
  case Nil
  show ?case by simp
next
  case (Cons kv kvs)
  obtain k v where kv: "kv = (k, v)" by (cases kv)
  from Cons.IH [of "AList.update k v d"] set_update_subset [of k v d]
  show ?case by (auto simp: kv)
qed

lemma filter_key_distinct:
  "distinct (map fst al) \<Longrightarrow> map_of al k = Some v \<Longrightarrow> filter (\<lambda>x. fst x = k) al = [(k, v)]"
proof (induction al)
  case Nil
  then show ?case by simp
next
  case (Cons x al)
  obtain k' v' where x: "x = (k', v')" by (cases x)
  show ?case
  proof (cases "k' = k")
    case True
    with Cons.prems x have "v' = v" and "k \<notin> fst ` set al" by auto
    then have "filter (\<lambda>x. fst x = k) al = []"
      by (auto simp: filter_empty_conv)
    with True x \<open>v' = v\<close> show ?thesis by simp
  next
    case False
    with Cons x show ?thesis by simp
  qed
qed

lemma assign_all_last:
  assumes "k \<notin> fst ` set kvs2"
  shows "filter (\<lambda>x. fst x = k) (assign_all [] (kvs1 @ (k, v) # kvs2)) = [(k, v)]"
proof -
  have "map_of (rev kvs2) k = None"
    using assms by (simp add: map_of_eq_None_iff)
  then have "map_of (assign_all [] (kvs1 @ (k, v) # kvs2)) k = Some v"
    by (simp add: assign_all_map_of map_of_append map_add_def)
  moreover have "distinct (map fst (assign_all [] (kvs1 @ (k, v) # kvs2)))"
    by (simp add: assign_all_distinct)
  ultimately show ?thesis by (rule filter_key_distinct [rotated])
qed


lemma abstract_entries_append:
  "abstract_entries (its1 @ its2) = abstract_entries its1 @ abstract_entries its2"
  by (induction its1 rule: abstract_entries.induct) auto

lemma abstract_entries_mem:
  "(n, a) \<in> set (abstract_entries its) \<Longrightarrow>
   \<exists>ms ops v vs. AbstractTypeDef n ms ops v vs \<in> set its \<and> a = abstract_of ms ops v vs"
proof (induction its rule: abstract_entries.induct)
  case 1
  then show ?case by simp
next
  case (2 n' l its)
  from "2.prems" have "(n, a) \<in> set (abstract_entries its)" by simp
  from "2.IH" [OF this] obtain ms' ops' v' vs' where
    "AbstractTypeDef n ms' ops' v' vs' \<in> set its" "a = abstract_of ms' ops' v' vs'"
    by blast
  then show ?case
    by (intro exI [of _ ms'] exI [of _ ops'] exI [of _ v'] exI [of _ vs']) simp
next
  case (3 n' ms ops v vs its)
  show ?case
  proof (cases "(n, a) = (n', abstract_of ms ops v vs)")
    case True
    then show ?thesis
      by (intro exI [of _ ms] exI [of _ ops] exI [of _ v] exI [of _ vs]) simp
  next
    case False
    with "3.prems" have "(n, a) \<in> set (abstract_entries its)" by auto
    from "3.IH" [OF this] obtain ms' ops' v' vs' where
      "AbstractTypeDef n ms' ops' v' vs' \<in> set its" "a = abstract_of ms' ops' v' vs'"
      by blast
    then show ?thesis
      by (intro exI [of _ ms'] exI [of _ ops'] exI [of _ v'] exI [of _ vs']) simp
  qed
qed

lemma variant_entry_keys: "map fst (map (variant_entry ops) vs) = map fst vs"
  by (induction vs) (auto simp: variant_entry_def)

lemma abstract_of_order:
  "AbstractType.members (abstract_of ms ops v vs) = map member_of ms"
  "AbstractType.pure_virtual_functions (abstract_of ms ops v vs) = map op_of ops"
  "map fst (sub_types (abstract_of ms ops v vs)) = keep_first (map fst (v # vs))"
  "distinct (map fst (v # vs)) \<Longrightarrow>
     sub_types (abstract_of ms ops v vs) = map (variant_entry ops) (v # vs)"
proof -
  show "AbstractType.members (abstract_of ms ops v vs) = map member_of ms"
    and "AbstractType.pure_virtual_functions (abstract_of ms ops v vs) = map op_of ops"
    by (simp_all add: abstract_of_def)
  have "map fst (assign_all [] (map (variant_entry ops) (v # vs))) =
      keep_first (map fst (map (variant_entry ops) (v # vs)))"
    using assign_all_keys [of "[]" "map (variant_entry ops) (v # vs)"] by simp
  then show "map fst (sub_types (abstract_of ms ops v vs)) = keep_first (map fst (v # vs))"
    unfolding variant_entry_keys by (simp add: abstract_of_def)
  assume "distinct (map fst (v # vs))"
  then have "distinct (map fst (map (variant_entry ops) (v # vs)))"
    unfolding variant_entry_keys .
  then have "assign_all [] (map (variant_entry ops) (v # vs)) =
      map (variant_entry ops) (v # vs)"
    using assign_all_fresh [of "[]" "map (variant_entry ops) (v # vs)"] by simp
  then show "sub_types (abstract_of ms ops v vs) = map (variant_entry ops) (v # vs)"
    by (simp add: abstract_of_def)
qed

section \<open>Order of the declarations\<close>

text \<open>
  C8, as stated, fails for the variants: the file \<open>T() = A(x "1") | B() | A(y "2")\<close> is
  accepted, and its variants are stored as \<open>A\<close> with the member \<open>y\<close>, then \<open>B\<close>. The variant
  declared third stands before the variant declared second, so the stored variants are
  not the declared ones in source order, nor a selection of them in source order.
\<close>

theorem repeated_variant_order_counterexample:
  "parse [tok IDENTIFIER ''T'', tok LEFT_PARENTHESIS ''('', tok RIGHT_PARENTHESIS '')'',
          tok EQUALS ''='',
          tok IDENTIFIER ''A'', tok LEFT_PARENTHESIS ''('',
            tok IDENTIFIER ''x'', tok STRING_LITERAL ''\"1\"'', tok RIGHT_PARENTHESIS '')'',
          tok PIPE ''|'',
          tok IDENTIFIER ''B'', tok LEFT_PARENTHESIS ''('', tok RIGHT_PARENTHESIS '')'',
          tok PIPE ''|'',
          tok IDENTIFIER ''A'', tok LEFT_PARENTHESIS ''('',
            tok IDENTIFIER ''y'', tok STRING_LITERAL ''\"2\"'', tok RIGHT_PARENTHESIS '')'',
          tok END_OF_INPUT []]
     = Inr \<lparr>prelude = [], type_definitions = [],
            abstract_types =
              [(''T'',
                \<lparr>sub_types =
                   [(''A'', \<lparr>PolymorphicType.pure_virtual_functions = [],
                             PolymorphicType.members =
                               [\<lparr>Member.name = ''y'', by_move = False, member_type = ''2''\<rparr>],
                             implementations = []\<rparr>),
                    (''B'', \<lparr>PolymorphicType.pure_virtual_functions = [],
                             PolymorphicType.members = [], implementations = []\<rparr>)],
                 AbstractType.members = [], AbstractType.pure_virtual_functions = []\<rparr>)],
            postlude = []\<rparr> \<and>
   \<not> subseq
       [(''A'', \<lparr>PolymorphicType.pure_virtual_functions = [],
                 PolymorphicType.members =
                   [\<lparr>Member.name = ''y'', by_move = False, member_type = ''2''\<rparr>],
                 implementations = []\<rparr>),
        (''B'', \<lparr>PolymorphicType.pure_virtual_functions = [],
                 PolymorphicType.members = [], implementations = []\<rparr>)]
       [(''A'', \<lparr>PolymorphicType.pure_virtual_functions = [],
                 PolymorphicType.members =
                   [\<lparr>Member.name = ''x'', by_move = False, member_type = ''1''\<rparr>],
                 implementations = []\<rparr>),
        (''B'', \<lparr>PolymorphicType.pure_virtual_functions = [],
                 PolymorphicType.members = [], implementations = []\<rparr>),
        (''A'', \<lparr>PolymorphicType.pure_virtual_functions = [],
                 PolymorphicType.members =
                   [\<lparr>Member.name = ''y'', by_move = False, member_type = ''2''\<rparr>],
                 implementations = []\<rparr>)]"
  by (intro conjI) (code_simp, simp)

text \<open>
  C8, amended. For the tokens of a well-formed file, \<^verbatim>\<open>parse\<close> returns a description in
  which the type definitions are exactly the \<^verbatim>\<open>type\<close> constructs in source order; the names
  of the abstract types are the declared names in the order of their first occurrence,
  and the entries are exactly the declarations in source order when no name is declared
  twice; every abstract type holds the shared members and the operations of a declaration
  of its name in source order, and the names of the variants of that declaration in the
  order of their first occurrence, the entries being exactly the declared variants in
  source order when that declaration repeats no variant name.
\<close>

theorem declaration_order_preserved:
  assumes "\<forall>it \<in> set its. item_ok it" and "token_type e = END_OF_INPUT"
    and "pre = None \<and> its = [] \<longrightarrow> post = None"
  shows "\<exists>g. parse (file_tokens kw pre its post @ e # junk) = Inr g \<and>
    type_definitions g = typedef_entries its \<and>
    map fst (abstract_types g) = keep_first (map fst (abstract_entries its)) \<and>
    (distinct (map fst (abstract_entries its)) \<longrightarrow> abstract_types g = abstract_entries its) \<and>
    (\<forall>(n, a) \<in> set (abstract_types g).
       \<exists>ms ops v vs. AbstractTypeDef n ms ops v vs \<in> set its \<and>
         AbstractType.members a = map member_of ms \<and>
         AbstractType.pure_virtual_functions a = map op_of ops \<and>
         map fst (sub_types a) = keep_first (map fst (v # vs)) \<and>
         (distinct (map fst (v # vs)) \<longrightarrow> sub_types a = map (variant_entry ops) (v # vs)))"
proof -
  let ?g = "description_of pre its post"
  have parse: "parse (file_tokens kw pre its post @ e # junk) = Inr ?g"
    using assms by (rule parse_file)
  have tdefs: "type_definitions ?g = typedef_entries its"
    by (simp add: description_of_def)
  have "map fst (assign_all [] (abstract_entries its)) =
      keep_first (map fst (abstract_entries its))"
    using assign_all_keys [of "[]" "abstract_entries its"] by simp
  then have keys: "map fst (abstract_types ?g) = keep_first (map fst (abstract_entries its))"
    by (simp add: description_of_def)
  have exact: "abstract_types ?g = abstract_entries its"
    if "distinct (map fst (abstract_entries its))"
    using that assign_all_fresh [of "[]" "abstract_entries its"]
    by (simp add: description_of_def)
  have each: "\<exists>ms ops v vs. AbstractTypeDef n ms ops v vs \<in> set its \<and>
         AbstractType.members a = map member_of ms \<and>
         AbstractType.pure_virtual_functions a = map op_of ops \<and>
         map fst (sub_types a) = keep_first (map fst (v # vs)) \<and>
         (distinct (map fst (v # vs)) \<longrightarrow> sub_types a = map (variant_entry ops) (v # vs))"
    if "(n, a) \<in> set (abstract_types ?g)" for n a
  proof -
    from that set_assign_all [of "[]" "abstract_entries its"]
    have "(n, a) \<in> set (abstract_entries its)"
      by (auto simp: description_of_def)
    then obtain ms ops v vs where "AbstractTypeDef n ms ops v vs \<in> set its"
      and "a = abstract_of ms ops v vs"
      using abstract_entries_mem by blast
    then show ?thesis
      using abstract_of_order [where ms = ms and ops = ops and v = v and vs = vs] by blast
  qed
  from parse tdefs keys exact each show ?thesis
    by (intro exI [of _ ?g]) blast
qed

theorem declaration_order_preserved_witness:
  "\<exists>g. parse (file_tokens keyword_lexeme None ordered_items None @ [tok END_OF_INPUT []]) = Inr g \<and>
     type_definitions g = [(''Id'', ''int''), (''Name'', ''std::string'')] \<and>
     map fst (abstract_types g) = [''Shape'', ''Token''] \<and>
     map (\<lambda>(n, a). map fst (sub_types a)) (abstract_types g) =
       [[''Circle'', ''Square''], [''Word'', ''Eof'']] \<and>
     map (\<lambda>(n, a). map PureVirtualFunction.name (AbstractType.pure_virtual_functions a))
         (abstract_types g) = [[''area'', ''draw''], []]"
proof -
  have ok: "\<forall>it \<in> set ordered_items. item_ok it"
    by (auto simp: ordered_items_def variant_ok_def impl_names_def)
  have e: "token_type (tok END_OF_INPUT []) = END_OF_INPUT" by simp
  have first: "None = None \<and> ordered_items = [] \<longrightarrow> None = (None :: string option)"
    by simp
  from declaration_order_preserved [OF ok e first, of keyword_lexeme "[]"]
  obtain g where g: "parse (file_tokens keyword_lexeme None ordered_items None @ [tok END_OF_INPUT []]) = Inr g"
    and tdefs: "type_definitions g = typedef_entries ordered_items"
    and exact: "distinct (map fst (abstract_entries ordered_items)) \<longrightarrow>
        abstract_types g = abstract_entries ordered_items"
    by blast
  have "distinct (map fst (abstract_entries ordered_items))"
    by (simp add: ordered_items_def)
  with exact have abs: "abstract_types g = abstract_entries ordered_items" by simp
  show ?thesis
  proof (intro exI [of _ g] conjI)
    show "parse (file_tokens keyword_lexeme None ordered_items None @ [tok END_OF_INPUT []])
        = Inr g"
      by (rule g)
  qed (simp_all add: tdefs abs ordered_items_def abstract_of_def variant_entry_def
                     unquote_def strip_def slice1_def isspace_def)
qed

section \<open>Repeated variant names\<close>

text \<open>
  C7. Let an abstract type of a well-formed file, the last one of its name, declare a
  variant \<open>u\<close> and later a variant \<open>w\<close> of the same name, the last one of that name. Then
  \<^verbatim>\<open>parse\<close> succeeds, and the variants of that abstract type hold exactly one entry under
  the name: the variant built from \<open>w\<close>.
\<close>

theorem later_variant_overwrites:
  assumes "\<forall>it \<in> set its. item_ok it" and "token_type e = END_OF_INPUT"
    and "pre = None \<and> its = [] \<longrightarrow> post = None"
    and its: "its = its1 @ AbstractTypeDef n ms ops v vs # its2"
    and last: "n \<notin> fst ` set (abstract_entries its2)"
    and variants: "v # vs = vs1 @ u # vs2 @ w # vs3"
    and same: "fst u = fst w" and later: "fst w \<notin> fst ` set vs3"
  shows "\<exists>g a. parse (file_tokens kw pre its post @ e # junk) = Inr g \<and>
    filter (\<lambda>x. fst x = n) (abstract_types g) = [(n, a)] \<and>
    filter (\<lambda>x. fst x = fst w) (sub_types a) = [(fst w, variant_of ops w)]"
proof -
  let ?g = "description_of pre its post"
  let ?a = "abstract_of ms ops v vs"
  have parse: "parse (file_tokens kw pre its post @ e # junk) = Inr ?g"
    using assms(1-3) by (rule parse_file)
  have "abstract_types ?g =
      assign_all [] (abstract_entries its1 @ (n, ?a) # abstract_entries its2)"
    by (simp add: description_of_def its abstract_entries_append)
  then have abs: "filter (\<lambda>x. fst x = n) (abstract_types ?g) = [(n, ?a)]"
    using assign_all_last [OF last] by simp
  have "fst ` set (map (variant_entry ops) vs3) = fst ` set vs3"
    by (induction vs3) (auto simp: variant_entry_def)
  then have "fst w \<notin> fst ` set (map (variant_entry ops) vs3)"
    using later by simp
  then have "filter (\<lambda>x. fst x = fst w)
      (assign_all [] (map (variant_entry ops) (vs1 @ u # vs2)
         @ (fst w, variant_of ops w) # map (variant_entry ops) vs3)) =
      [(fst w, variant_of ops w)]"
    by (rule assign_all_last)
  then have "filter (\<lambda>x. fst x = fst w) (sub_types ?a) = [(fst w, variant_of ops w)]"
    unfolding abstract_of_def variants by (simp add: variant_entry_def)
  with parse abs show ?thesis by blast
qed

theorem later_variant_overwrites_witness:
  "\<exists>g a. parse (file_tokens keyword_lexeme None repeated_items None @ [tok END_OF_INPUT []]) = Inr g \<and>
     filter (\<lambda>x. fst x = ''T'') (abstract_types g) = [(''T'', a)] \<and>
     filter (\<lambda>x. fst x = ''A'') (sub_types a) =
       [(''A'', \<lparr>PolymorphicType.pure_virtual_functions = [],
                 PolymorphicType.members =
                   [\<lparr>Member.name = ''y'', by_move = False, member_type = ''2''\<rparr>],
                 implementations = []\<rparr>)]"
proof -
  have ok: "\<forall>it \<in> set repeated_items. item_ok it"
    by (auto simp: repeated_items_def variant_ok_def impl_names_def)
  have e: "token_type (tok END_OF_INPUT []) = END_OF_INPUT" by simp
  have first: "None = None \<and> repeated_items = [] \<longrightarrow> None = (None :: string option)"
    by (simp add: repeated_items_def)
  have its: "repeated_items = [] @ AbstractTypeDef ''T'' [] []
       (''A'', [MemberItem (''x'', False, ''\"1\"'')])
       [(''B'', []), (''A'', [MemberItem (''y'', False, ''\"2\"'')])] # []"
    by (simp add: repeated_items_def)
  have last: "''T'' \<notin> fst ` set (abstract_entries [])" by simp
  have variants: "(''A'', [MemberItem (''x'', False, ''\"1\"'')])
       # [(''B'', []), (''A'', [MemberItem (''y'', False, ''\"2\"'')])] =
     [] @ (''A'', [MemberItem (''x'', False, ''\"1\"'')]) # [(''B'', [])]
       @ (''A'', [MemberItem (''y'', False, ''\"2\"'')]) # []"
    by simp
  have same: "fst (''A'', [MemberItem (''x'', False, ''\"1\"'')]) =
      fst (''A'', [MemberItem (''y'', False, ''\"2\"'')])"
    by simp
  have later: "fst (''A'', [MemberItem (''y'', False, ''\"2\"'')]) \<notin> fst ` set []"
    by simp
  from later_variant_overwrites [OF ok e first its last variants same later,
      of keyword_lexeme "[]"]
  show ?thesis
    by (simp add: variant_of_def unquote_def strip_def slice1_def isspace_def)
qed

end
